theory Spec2Isabelle
  imports Main
begin

section \<open>Data model\<close>

text \<open>
  The engine is the class \<open>Board\<close> of the object-oriented implementation; the
  functional module repeats \<open>piece\<close>, \<open>canMove\<close> and the two directional checks.
  Piece values are an arbitrary type \<open>'a\<close> compared with HOL equality; a cell of type
  \<open>T | undefined\<close> is an \<open>'a option\<close>, \<open>None\<close> being \<open>undefined\<close>.
  Row and column numbers are JavaScript numbers holding integers: \<open>int\<close>.
\<close>

text \<open>
  The errors the engine can raise: a TypeError, by indexing \<open>undefined\<close>, and a
  RangeError, by a call the call stack has no room for.
\<close>

datatype error = TypeError | RangeError

record Position =
  row :: int
  col :: int

record 'a Match =
  matched :: "'a option"
  positions :: "Position list"

datatype 'a BoardEvent = MatchEvent "'a Match" | RefillEvent

type_synonym 'a grid = "'a option list list"

text \<open>
  The generator object is the sequence of the values its \<open>next()\<close> returns
  (\<open>generator\<close>) and the number of calls made so far (\<open>drawn\<close>): the values are
  pieces, never \<open>undefined\<close>, and do not depend on the board. A listener is a handle
  for a callback that does not call the board back; \<open>delivered\<close> records every
  invocation of a listener with the event it received, \<open>events\<close> every call of
  \<open>alert\<close>. Both logs only grow. They are not fields of the class: they make the calls
  observable.
\<close>

record 'a Board =
  board :: "'a grid"
  listeners :: "nat list"
  generator :: "nat \<Rightarrow> 'a"
  drawn :: nat
  matches :: "'a Match list"
  width :: int
  height :: int
  events :: "'a BoardEvent list"
  delivered :: "(nat \<times> 'a BoardEvent) list"

section \<open>Errors and array accesses\<close>

fun bindE :: "error + 'x \<Rightarrow> ('x \<Rightarrow> error + 'y) \<Rightarrow> error + 'y" where
  "bindE (Inl e) f = Inl e"
| "bindE (Inr x) f = f x"

text \<open>
  \<open>this.board[r]\<close> is \<open>undefined\<close> when \<open>r\<close> is not an index of the outer array, and
  indexing \<open>undefined\<close> raises a TypeError. Reading \<open>rw[c]\<close> outside the row array gives
  \<open>undefined\<close>. Writing \<open>rw[c] = v\<close> at \<open>c\<close> beyond the end extends the array (the holes
  read as \<open>undefined\<close>); at a negative \<open>c\<close> it sets a property that is no array element
  and that no method of the class reads.
\<close>

definition rowAt :: "'c list list \<Rightarrow> int \<Rightarrow> 'c list option" where
  "rowAt g r = (if 0 \<le> r \<and> r < int (length g) then Some (g ! nat r) else None)"

definition readCell :: "'a grid \<Rightarrow> int \<Rightarrow> int \<Rightarrow> error + 'a option" where
  "readCell g r c =
     (case rowAt g r of
        None \<Rightarrow> Inl TypeError
      | Some rw \<Rightarrow> Inr (if 0 \<le> c \<and> c < int (length rw) then rw ! nat c else None))"

definition writeCell :: "'a grid \<Rightarrow> int \<Rightarrow> int \<Rightarrow> 'a option \<Rightarrow> error + 'a grid" where
  "writeCell g r c v =
     (case rowAt g r of
        None \<Rightarrow> Inl TypeError
      | Some rw \<Rightarrow>
          if c < 0 then Inr g
          else if c < int (length rw) then Inr (g[nat r := rw[nat c := v]])
          else Inr (g[nat r := rw @ replicate (nat c - length rw) None @ [v]]))"

section \<open>Grid access\<close>

definition piece :: "'a Board \<Rightarrow> Position \<Rightarrow> error + 'a option" where
  "piece s p =
     (if row p < 0 \<or> col p < 0 \<or> row p \<ge> height s \<or> col p \<ge> width s then Inr None
      else readCell (board s) (row p) (col p))"

text \<open>The functional module's \<open>piece\<close>; its field \<open>data\<close> is the field \<open>board\<close> here.\<close>

definition piece_fn :: "'a Board \<Rightarrow> Position \<Rightarrow> error + 'a option" where
  "piece_fn s p =
     (if row p \<ge> 0 \<and> row p < height s \<and> col p \<ge> 0 \<and> col p < width s
      then readCell (board s) (row p) (col p)
      else Inr None)"

text \<open>The shape the constructor establishes: \<open>height\<close> rows of \<open>width\<close> cells.\<close>

definition rect :: "'a Board \<Rightarrow> bool" where
  "rect s \<longleftrightarrow> length (board s) = nat (height s) \<and> list_all (\<lambda>rw. length rw = nat (width s)) (board s)"

definition inGrid :: "'a Board \<Rightarrow> Position \<Rightarrow> bool" where
  "inGrid s p \<longleftrightarrow> 0 \<le> row p \<and> row p < height s \<and> 0 \<le> col p \<and> col p < width s"

section \<open>Events and the generator\<close>

definition alert :: "'a BoardEvent \<Rightarrow> 'a Board \<Rightarrow> 'a Board" where
  "alert ev s =
     s\<lparr>events := events s @ [ev],
       delivered := delivered s @ map (\<lambda>l. (l, ev)) (listeners s)\<rparr>"

definition addListener :: "nat \<Rightarrow> 'a Board \<Rightarrow> 'a Board" where
  "addListener l s = s\<lparr>listeners := listeners s @ [l]\<rparr>"

definition nextPiece :: "'a Board \<Rightarrow> 'a \<times> 'a Board" where
  "nextPiece s = (generator s (drawn s), s\<lparr>drawn := drawn s + 1\<rparr>)"

section \<open>Swap validation\<close>

definition change :: "'a Board \<Rightarrow> Position \<Rightarrow> Position \<Rightarrow> error + 'a Board" where
  "change s first second =
     bindE (piece s first) (\<lambda>firstPiece.
     bindE (piece s second) (\<lambda>secondPiece.
     bindE (writeCell (board s) (row first) (col first) secondPiece) (\<lambda>g1.
     bindE (writeCell g1 (row second) (col second) firstPiece) (\<lambda>g2.
     Inr (s\<lparr>board := g2\<rparr>)))))"

text \<open>
  The loop \<open>for (let i = column - 2; i <= column + 2; i++)\<close> of \<open>evaluateColumnMatch\<close>,
  over the list of its indices; \<open>return true\<close> leaves the loop.
\<close>

fun columnWindows :: "'a Board \<Rightarrow> int \<Rightarrow> 'a \<Rightarrow> int list \<Rightarrow> error + bool" where
  "columnWindows s r targetPiece [] = Inr False"
| "columnWindows s r targetPiece (i # rest) =
     (if i \<ge> 0 \<and> i + 2 < width s then
        bindE (piece s \<lparr>row = r, col = i\<rparr>) (\<lambda>piece1.
        bindE (piece s \<lparr>row = r, col = i + 1\<rparr>) (\<lambda>piece2.
        bindE (piece s \<lparr>row = r, col = i + 2\<rparr>) (\<lambda>piece3.
        if piece1 = Some targetPiece \<and> piece2 = Some targetPiece \<and> piece3 = Some targetPiece
        then Inr True
        else columnWindows s r targetPiece rest)))
      else columnWindows s r targetPiece rest)"

definition evaluateColumnMatch :: "'a Board \<Rightarrow> Position \<Rightarrow> 'a \<Rightarrow> error + bool" where
  "evaluateColumnMatch s position targetPiece =
     (let column = col position; r = row position
      in columnWindows s r targetPiece [column - 2, column - 1, column, column + 1, column + 2])"

fun rowWindows :: "'a Board \<Rightarrow> int \<Rightarrow> 'a \<Rightarrow> int list \<Rightarrow> error + bool" where
  "rowWindows s column targetPiece [] = Inr False"
| "rowWindows s column targetPiece (i # rest) =
     (if i \<ge> 0 \<and> i + 2 < height s then
        bindE (piece s \<lparr>row = i, col = column\<rparr>) (\<lambda>piece1.
        bindE (piece s \<lparr>row = i + 1, col = column\<rparr>) (\<lambda>piece2.
        bindE (piece s \<lparr>row = i + 2, col = column\<rparr>) (\<lambda>piece3.
        if piece1 = Some targetPiece \<and> piece2 = Some targetPiece \<and> piece3 = Some targetPiece
        then Inr True
        else rowWindows s column targetPiece rest)))
      else rowWindows s column targetPiece rest)"

definition evaluateRowMatch :: "'a Board \<Rightarrow> Position \<Rightarrow> 'a \<Rightarrow> error + bool" where
  "evaluateRowMatch s position targetPiece =
     (let column = col position; r = row position
      in rowWindows s column targetPiece [r - 2, r - 1, r, r + 1, r + 2])"

definition canMove :: "'a Board \<Rightarrow> Position \<Rightarrow> Position \<Rightarrow> error + bool \<times> 'a Board" where
  "canMove s positionA positionB =
     bindE (piece s positionA) (\<lambda>pieceA.
     bindE (piece s positionB) (\<lambda>pieceB.
     case (pieceA, pieceB) of
       (Some a, Some b) \<Rightarrow>
         if a = b then Inr (False, s)
         else if col positionA = col positionB \<or> row positionA = row positionB then
           bindE (change s positionA positionB) (\<lambda>s1.
           bindE (evaluateColumnMatch s1 positionA b) (\<lambda>isColumnMatch1.
           bindE (evaluateColumnMatch s1 positionB a) (\<lambda>isColumnMatch2.
           bindE (evaluateRowMatch s1 positionA b) (\<lambda>isColumnMatch3.
           bindE (evaluateRowMatch s1 positionB a) (\<lambda>isColumnMatch4.
           bindE (change s1 positionA positionB) (\<lambda>s2.
           Inr (isColumnMatch1 \<or> isColumnMatch2 \<or> isColumnMatch3 \<or> isColumnMatch4, s2)))))))
         else Inr (False, s)
     | _ \<Rightarrow> Inr (False, s)))"

section \<open>Match scanning\<close>

definition findColumnMatch :: "'a Board \<Rightarrow> int \<Rightarrow> int \<Rightarrow> error + bool \<times> 'a Board" where
  "findColumnMatch s r c =
     (let position1 = \<lparr>row = r, col = c\<rparr>;
          position2 = \<lparr>row = r, col = c + 1\<rparr>;
          position3 = \<lparr>row = r, col = c + 2\<rparr>
      in bindE (piece s position1) (\<lambda>piece1.
         bindE (piece s position2) (\<lambda>piece2.
         bindE (piece s position3) (\<lambda>piece3.
         if piece1 = piece2 \<and> piece2 = piece3 \<and> piece1 = piece3 then
           let m = \<lparr>matched = piece1, positions = [position1, position2, position3]\<rparr>;
               s1 = alert (MatchEvent m) s
           in Inr (True, s1\<lparr>matches := matches s1 @ [m]\<rparr>)
         else Inr (False, s)))))"

definition findRowMatch :: "'a Board \<Rightarrow> int \<Rightarrow> int \<Rightarrow> error + bool \<times> 'a Board" where
  "findRowMatch s r c =
     (let position1 = \<lparr>row = r, col = c\<rparr>;
          position2 = \<lparr>row = r + 1, col = c\<rparr>;
          position3 = \<lparr>row = r + 2, col = c\<rparr>
      in bindE (piece s position1) (\<lambda>piece1.
         bindE (piece s position2) (\<lambda>piece2.
         bindE (piece s position3) (\<lambda>piece3.
         if piece1 = piece2 \<and> piece2 = piece3 \<and> piece1 = piece3 then
           let m = \<lparr>matched = piece1, positions = [position1, position2, position3]\<rparr>;
               s1 = alert (MatchEvent m) s
           in Inr (True, s1\<lparr>matches := matches s1 @ [m]\<rparr>)
         else Inr (False, s)))))"

text \<open>The indices \<open>0, 1, ..., n - 1\<close> of a \<open>for\<close> loop up to \<open>n\<close> (none when \<open>n \<le> 0\<close>).\<close>

definition upTo :: "int \<Rightarrow> int list" where
  "upTo n = map int [0..<nat n]"

text \<open>The index pairs of two nested loops, rows outside, in the order the loops visit them.\<close>

definition cells :: "int \<Rightarrow> int \<Rightarrow> (int \<times> int) list" where
  "cells h w = concat (map (\<lambda>r. map (\<lambda>c. (r, c)) (upTo w)) (upTo h))"

text \<open>
  One pair of nested loops of \<open>findMatches\<close>: the flag is tested at every cell, and the
  finder is called only while the flag is false.
\<close>

fun scanFor ::
  "('a Board \<Rightarrow> int \<Rightarrow> int \<Rightarrow> error + bool \<times> 'a Board) \<Rightarrow> (int \<times> int) list \<Rightarrow> bool \<Rightarrow> 'a Board
    \<Rightarrow> error + bool \<times> 'a Board" where
  "scanFor finder [] found s = Inr (found, s)"
| "scanFor finder ((r, c) # rest) found s =
     (if \<not> found then bindE (finder s r c) (\<lambda>(b, s1). scanFor finder rest b s1)
      else scanFor finder rest found s)"

definition findMatches :: "'a Board \<Rightarrow> error + bool \<times> 'a Board" where
  "findMatches s =
     bindE (scanFor findColumnMatch (cells (height s) (width s - 2)) False s) (\<lambda>(columnMatch, s1).
     bindE (scanFor findRowMatch (cells (height s1 - 2) (width s1)) False s1) (\<lambda>(rowMatch, s2).
     Inr (columnMatch \<or> rowMatch, s2)))"

section \<open>Match resolution and refill\<close>

fun forEachE :: "'i list \<Rightarrow> ('i \<Rightarrow> 's \<Rightarrow> error + 's) \<Rightarrow> 's \<Rightarrow> error + 's" where
  "forEachE [] body s = Inr s"
| "forEachE (i # rest) body s = bindE (body i s) (forEachE rest body)"

text \<open>
  The body of the \<open>forEach\<close> of \<open>doMatch\<close>. Reading \<open>.row\<close> of a position the list does
  not have raises a TypeError.
\<close>

definition clearMatch :: "'a Match \<Rightarrow> 'a grid \<Rightarrow> error + 'a grid" where
  "clearMatch m g =
     (case positions m of
        position1 # position2 # position3 # _ \<Rightarrow>
          bindE (writeCell g (row position1) (col position1) None) (\<lambda>g1.
          bindE (writeCell g1 (row position2) (col position2) None) (\<lambda>g2.
          writeCell g2 (row position3) (col position3) None))
      | _ \<Rightarrow> Inl TypeError)"

text \<open>\<open>doMatch\<close> up to its call of \<open>refillBoard\<close>.\<close>

definition clearMatches :: "'a Board \<Rightarrow> error + 'a Board" where
  "clearMatches s =
     bindE (forEachE (matches s) clearMatch (board s)) (\<lambda>g.
     Inr (alert RefillEvent (s\<lparr>board := g, matches := []\<rparr>)))"

text \<open>The inner \<open>while\<close> loop of \<open>refillBoard\<close>: the nearest non-empty row above, or \<open>-1\<close>.\<close>

function findAbove :: "'a grid \<Rightarrow> int \<Rightarrow> int \<Rightarrow> error + int" where
  "findAbove g c rowAbove =
     (if rowAbove \<ge> 0 then
        (case readCell g rowAbove c of
           Inl e \<Rightarrow> Inl e
         | Inr v \<Rightarrow> if v = None then findAbove g c (rowAbove - 1) else Inr rowAbove)
      else Inr rowAbove)"
  by pat_completeness auto
termination
  by (relation "measure (\<lambda>(g, c, rowAbove). nat (rowAbove + 1))") auto

declare findAbove.simps [simp del]

text \<open>The \<open>if\<close> statement in the row loop of \<open>refillBoard\<close>, for the cell at row \<open>r\<close>, column \<open>c\<close>.\<close>

definition refillCell :: "int \<Rightarrow> int \<Rightarrow> 'a Board \<Rightarrow> error + 'a Board" where
  "refillCell c r s =
     bindE (readCell (board s) r c) (\<lambda>v.
     if v = None then
       bindE (findAbove (board s) c (r - 1)) (\<lambda>rowAbove.
       if rowAbove \<ge> 0 then
         bindE (readCell (board s) rowAbove c) (\<lambda>x.
         bindE (writeCell (board s) r c x) (\<lambda>g1.
         bindE (writeCell g1 rowAbove c None) (\<lambda>g2.
         Inr (s\<lparr>board := g2\<rparr>))))
       else
         (let (x, s1) = nextPiece s
          in bindE (writeCell (board s1) r c (Some x)) (\<lambda>g1. Inr (s1\<lparr>board := g1\<rparr>))))
     else Inr s)"

text \<open>\<open>newColumn[r]\<close>: \<open>undefined\<close> outside the array.\<close>

definition elemAt :: "'a option list \<Rightarrow> int \<Rightarrow> 'a option" where
  "elemAt xs r = (if 0 \<le> r \<and> r < int (length xs) then xs ! nat r else None)"

text \<open>
  One iteration of the column loop of \<open>refillBoard\<close>: the row loop from the bottom row up,
  which builds \<open>newColumn\<close> by \<open>unshift\<close>, then the loop that copies \<open>newColumn\<close> back.
\<close>

definition refillColumn :: "int \<Rightarrow> 'a Board \<Rightarrow> error + 'a Board" where
  "refillColumn c s =
     bindE (forEachE (rev (upTo (height s)))
              (\<lambda>r (s1, newColumn).
                 bindE (refillCell c r s1) (\<lambda>s2.
                 bindE (readCell (board s2) r c) (\<lambda>v. Inr (s2, v # newColumn))))
              (s, []))
       (\<lambda>(s1, newColumn).
          forEachE (upTo (height s1))
            (\<lambda>r s2. bindE (writeCell (board s2) r c (elemAt newColumn r)) (\<lambda>g. Inr (s2\<lparr>board := g\<rparr>)))
            s1)"

text \<open>The column loop of \<open>refillBoard\<close>, without the \<open>while\<close> loop that follows it.\<close>

definition refillColumns :: "'a Board \<Rightarrow> error + 'a Board" where
  "refillColumns s = forEachE (upTo (width s)) refillColumn s"

text \<open>One pass after a successful scan: clear the recorded matches, announce, let pieces fall.\<close>

definition settle :: "'a Board \<Rightarrow> error + 'a Board" where
  "settle s = bindE (clearMatches s) refillColumns"

section \<open>The resolve loop\<close>

text \<open>
  \<open>while (this.findMatches()) { this.doMatch(); }\<close> appears in the constructor, in \<open>move\<close>
  and at the end of \<open>refillBoard\<close>, which \<open>doMatch\<close> calls: the loop contains itself, and
  every pass of a cascade runs inside the calls of the passes before it. The call stack
  of the engine is finite, and a call it has no room for raises a RangeError. The stack
  is the argument \<open>depth\<close>: the number of nested calls of \<open>doMatch\<close> the stack has room
  for when the loop starts, a number the engine fixes and the source does not name.
  Calls that do not nest (\<open>findMatches\<close>, \<open>piece\<close>, \<open>alert\<close>, the generator) are taken to
  fit. In the recursive equation the inner call is the loop at the end of
  \<open>refillBoard\<close>, one level deeper, and the outer call is the next iteration of the
  \<open>while\<close>, at the same level. The result is an option, \<open>None\<close> for a loop that does not
  end, because the equation alone does not bound the iterations of the \<open>while\<close>.
\<close>

fun bindR :: "(error + 'x) option \<Rightarrow> ('x \<Rightarrow> (error + 'y) option) \<Rightarrow> (error + 'y) option" where
  "bindR None f = None"
| "bindR (Some (Inl e)) f = Some (Inl e)"
| "bindR (Some (Inr x)) f = f x"

partial_function (option) resolve :: "nat \<Rightarrow> 'a Board \<Rightarrow> (error + 'a Board) option" where
  "resolve depth s =
     (case findMatches s of
        Inl e \<Rightarrow> Some (Inl e)
      | Inr (found, s1) \<Rightarrow>
          if found then
            (case depth of
               0 \<Rightarrow> Some (Inl RangeError)
             | Suc inner \<Rightarrow>
                 (case settle s1 of
                    Inl e \<Rightarrow> Some (Inl e)
                  | Inr s2 \<Rightarrow>
                      Option.bind (resolve inner s2)
                        (\<lambda>res. case res of Inl e \<Rightarrow> Some (Inl e) | Inr s3 \<Rightarrow> resolve depth s3)))
          else Some (Inr s1))"

declare resolve.simps [code]

definition refillBoard :: "nat \<Rightarrow> 'a Board \<Rightarrow> (error + 'a Board) option" where
  "refillBoard depth s =
     (case refillColumns s of Inl e \<Rightarrow> Some (Inl e) | Inr s1 \<Rightarrow> resolve depth s1)"

definition doMatch :: "nat \<Rightarrow> 'a Board \<Rightarrow> (error + 'a Board) option" where
  "doMatch depth s =
     (case depth of
        0 \<Rightarrow> Some (Inl RangeError)
      | Suc inner \<Rightarrow>
          (case clearMatches s of Inl e \<Rightarrow> Some (Inl e) | Inr s1 \<Rightarrow> refillBoard inner s1))"

section \<open>Construction and moves\<close>

text \<open>The inner and the outer loop that fill the grid, one \<open>push\<close> each step.\<close>

fun fillRow :: "nat \<Rightarrow> 'a Board \<Rightarrow> 'a option list \<Rightarrow> 'a option list \<times> 'a Board" where
  "fillRow 0 s rw = (rw, s)"
| "fillRow (Suc n) s rw = (let (x, s1) = nextPiece s in fillRow n s1 (rw @ [Some x]))"

fun fillRows :: "nat \<Rightarrow> 'a Board \<Rightarrow> 'a Board" where
  "fillRows 0 s = s"
| "fillRows (Suc n) s =
     (let (rw, s1) = fillRow (nat (width s)) s [] in fillRows n (s1\<lparr>board := board s1 @ [rw]\<rparr>))"

text \<open>
  The constructor before its \<open>while\<close> loop, and the whole constructor and \<open>move\<close>, each
  called with room for \<open>depth\<close> nested calls of \<open>doMatch\<close> on the stack.
\<close>

definition filled :: "(nat \<Rightarrow> 'a) \<Rightarrow> int \<Rightarrow> int \<Rightarrow> 'a Board" where
  "filled gen w h =
     fillRows (nat h)
       \<lparr>board = [], listeners = [], generator = gen, drawn = 0, matches = [],
        width = w, height = h, events = [], delivered = []\<rparr>"

definition construct :: "nat \<Rightarrow> (nat \<Rightarrow> 'a) \<Rightarrow> int \<Rightarrow> int \<Rightarrow> (error + 'a Board) option" where
  "construct depth gen w h = resolve depth (filled gen w h)"

definition move :: "nat \<Rightarrow> 'a Board \<Rightarrow> Position \<Rightarrow> Position \<Rightarrow> (error + 'a Board) option" where
  "move depth s first second =
     (case canMove s first second of
        Inl e \<Rightarrow> Some (Inl e)
      | Inr (allowed, s1) \<Rightarrow>
          if allowed then
            (case change s1 first second of Inl e \<Rightarrow> Some (Inl e) | Inr s2 \<Rightarrow> resolve depth s2)
          else Some (Inr s1))"

section \<open>States a caller can observe\<close>

text \<open>
  A board exists once the constructor has returned; afterwards only \<open>addListener\<close>,
  \<open>canMove\<close> and \<open>move\<close> act on it. Each call finds the stack as its caller left it.
\<close>

inductive reachable :: "'a Board \<Rightarrow> bool" where
  constructed: "construct depth gen w h = Some (Inr s) \<Longrightarrow> reachable s"
| listened: "reachable s \<Longrightarrow> reachable (addListener l s)"
| asked: "reachable s \<Longrightarrow> canMove s a b = Inr (allowed, s1) \<Longrightarrow> reachable s1"
| moved: "reachable s \<Longrightarrow> move depth s a b = Some (Inr s1) \<Longrightarrow> reachable s1"

section \<open>The bootstrap's generator and board\<close>

text \<open>
  \<open>SequenceGenerator\<close> of the bootstrap file returns the characters of its sequence in
  turn, as one-character strings, and starts again at the end: the \<open>n\<close>-th call (from 0)
  returns \<open>sequence.charAt(n % sequence.length)\<close>.
\<close>

definition SequenceGenerator :: "string \<Rightarrow> nat \<Rightarrow> string" where
  "SequenceGenerator sequence n =
     (if sequence = [] then [] else [sequence ! (n mod length sequence)])"

text \<open>The board \<open>new Board(new SequenceGenerator("ABA"), 4, 3)\<close> of the bootstrap.\<close>

definition initBoard :: "string Board" where
  "initBoard =
     \<lparr>board = [[Some ''A'', Some ''B'', Some ''A'', Some ''A''],
               [Some ''B'', Some ''A'', Some ''A'', Some ''B''],
               [Some ''A'', Some ''A'', Some ''B'', Some ''A'']],
      listeners = [], generator = SequenceGenerator ''ABA'', drawn = 12, matches = [],
      width = 4, height = 3, events = [], delivered = []\<rparr>"

section \<open>Notions used in the proofs\<close>

text \<open>A grid of \<open>h\<close> rows of \<open>w\<close> cells; \<open>rect\<close> says it of a board's own grid.\<close>

definition shaped :: "int \<Rightarrow> int \<Rightarrow> 'c list list \<Rightarrow> bool" where
  "shaped h w g \<longleftrightarrow> length g = nat h \<and> list_all (\<lambda>rw. length rw = nat w) g"

text \<open>What \<open>readCell\<close> returns and what \<open>writeCell\<close> builds when both indices are in range.\<close>

definition cell :: "'c list list \<Rightarrow> int \<Rightarrow> int \<Rightarrow> 'c" where
  "cell g r c = g ! nat r ! nat c"

definition put :: "'c list list \<Rightarrow> int \<Rightarrow> int \<Rightarrow> 'c \<Rightarrow> 'c list list" where
  "put g r c v = g[nat r := (g ! nat r)[nat c := v]]"

text \<open>The value of \<open>piece\<close> on a rectangular board.\<close>

definition look :: "'a Board \<Rightarrow> Position \<Rightarrow> 'a option" where
  "look s p = (if inGrid s p then cell (board s) (row p) (col p) else None)"

text \<open>The board after \<open>change\<close> on two positions of the grid.\<close>

definition swapped :: "'a Board \<Rightarrow> Position \<Rightarrow> Position \<Rightarrow> 'a Board" where
  "swapped s a b =
     s\<lparr>board := put (put (board s) (row a) (col a) (look s b)) (row b) (col b) (look s a)\<rparr>"

text \<open>
  The test of one loop iteration of \<open>evaluateColumnMatch\<close> (\<open>hwin\<close>: the window of row \<open>r\<close>
  starting at column \<open>i\<close>) and of \<open>evaluateRowMatch\<close> (\<open>vwin\<close>: the window of column \<open>c\<close>
  starting at row \<open>i\<close>), and the window starts both loops visit.
\<close>

definition hwin :: "'a Board \<Rightarrow> int \<Rightarrow> 'a \<Rightarrow> int \<Rightarrow> bool" where
  "hwin s r t i \<longleftrightarrow>
     0 \<le> i \<and> i + 2 < width s \<and> look s \<lparr>row = r, col = i\<rparr> = Some t \<and>
     look s \<lparr>row = r, col = i + 1\<rparr> = Some t \<and> look s \<lparr>row = r, col = i + 2\<rparr> = Some t"

definition vwin :: "'a Board \<Rightarrow> int \<Rightarrow> 'a \<Rightarrow> int \<Rightarrow> bool" where
  "vwin s c t i \<longleftrightarrow>
     0 \<le> i \<and> i + 2 < height s \<and> look s \<lparr>row = i, col = c\<rparr> = Some t \<and>
     look s \<lparr>row = i + 1, col = c\<rparr> = Some t \<and> look s \<lparr>row = i + 2, col = c\<rparr> = Some t"

definition around :: "int \<Rightarrow> int list" where
  "around k = [k - 2, k - 1, k, k + 1, k + 2]"

text \<open>The boolean \<open>canMove\<close> computes on a rectangular board.\<close>

definition legal :: "'a Board \<Rightarrow> Position \<Rightarrow> Position \<Rightarrow> bool" where
  "legal s a b =
     (case (look s a, look s b) of
        (Some x, Some y) \<Rightarrow>
          x \<noteq> y \<and> (col a = col b \<or> row a = row b) \<and>
          (let s1 = swapped s a b
           in list_ex (hwin s1 (row a) y) (around (col a)) \<or>
              list_ex (hwin s1 (row b) x) (around (col b)) \<or>
              list_ex (vwin s1 (col a) y) (around (row a)) \<or>
              list_ex (vwin s1 (col b) x) (around (row b)))
      | _ \<Rightarrow> False)"

text \<open>
  Boards that hold a run: a row \<open>A B A A A\<close>, the same as a column, and the row
  \<open>B A A A A\<close>, which becomes the first when its first two cells are swapped. A
  listener called during a cascade sees such boards.
\<close>

definition runBoard :: "string Board" where
  "runBoard =
     \<lparr>board = [[Some ''B'', Some ''A'', Some ''A'', Some ''A'', Some ''A'']],
      listeners = [], generator = SequenceGenerator ''ABAAA'', drawn = 5, matches = [],
      width = 5, height = 1, events = [], delivered = []\<rparr>"

definition lineBoard :: "string Board" where
  "lineBoard =
     \<lparr>board = [[Some ''A'', Some ''B'', Some ''A'', Some ''A'', Some ''A'']],
      listeners = [], generator = SequenceGenerator ''ABAAA'', drawn = 5, matches = [],
      width = 5, height = 1, events = [], delivered = []\<rparr>"

definition towerBoard :: "string Board" where
  "towerBoard =
     \<lparr>board = [[Some ''A''], [Some ''B''], [Some ''A''], [Some ''A''], [Some ''A'']],
      listeners = [], generator = SequenceGenerator ''ABAAA'', drawn = 5, matches = [],
      width = 1, height = 5, events = [], delivered = []\<rparr>"

text \<open>
  What a finder does when it finds a run: \<open>alert\<close> the match, then push it. The test of
  \<open>findColumnMatch\<close> (\<open>hrun\<close>, three cells of one row) and of \<open>findRowMatch\<close> (\<open>vrun\<close>,
  three cells of one column) at a window, and the match each records.
\<close>

definition noted :: "'a Match \<Rightarrow> 'a Board \<Rightarrow> 'a Board" where
  "noted m s = (let s1 = alert (MatchEvent m) s in s1\<lparr>matches := matches s1 @ [m]\<rparr>)"

definition hrun :: "'a Board \<Rightarrow> int \<times> int \<Rightarrow> bool" where
  "hrun s = (\<lambda>(r, c). look s \<lparr>row = r, col = c\<rparr> = look s \<lparr>row = r, col = c + 1\<rparr> \<and>
                      look s \<lparr>row = r, col = c + 1\<rparr> = look s \<lparr>row = r, col = c + 2\<rparr>)"

definition vrun :: "'a Board \<Rightarrow> int \<times> int \<Rightarrow> bool" where
  "vrun s = (\<lambda>(r, c). look s \<lparr>row = r, col = c\<rparr> = look s \<lparr>row = r + 1, col = c\<rparr> \<and>
                      look s \<lparr>row = r + 1, col = c\<rparr> = look s \<lparr>row = r + 2, col = c\<rparr>)"

definition hmatch :: "'a Board \<Rightarrow> int \<times> int \<Rightarrow> 'a Match" where
  "hmatch s = (\<lambda>(r, c). \<lparr>matched = look s \<lparr>row = r, col = c\<rparr>,
      positions = [\<lparr>row = r, col = c\<rparr>, \<lparr>row = r, col = c + 1\<rparr>, \<lparr>row = r, col = c + 2\<rparr>]\<rparr>)"

definition vmatch :: "'a Board \<Rightarrow> int \<times> int \<Rightarrow> 'a Match" where
  "vmatch s = (\<lambda>(r, c). \<lparr>matched = look s \<lparr>row = r, col = c\<rparr>,
      positions = [\<lparr>row = r, col = c\<rparr>, \<lparr>row = r + 1, col = c\<rparr>, \<lparr>row = r + 2, col = c\<rparr>]\<rparr>)"

text \<open>
  The first window, in the order the first and the second pair of loops of
  \<open>findMatches\<close> visit them, that holds a run; the matches one call records; the board
  it leaves; and whether it returns true.
\<close>

definition firstH :: "'a Board \<Rightarrow> (int \<times> int) option" where
  "firstH s = find (hrun s) (cells (height s) (width s - 2))"

definition firstV :: "'a Board \<Rightarrow> (int \<times> int) option" where
  "firstV s = find (vrun s) (cells (height s - 2) (width s))"

definition newMatches :: "'a Board \<Rightarrow> 'a Match list" where
  "newMatches s =
     (case firstH s of None \<Rightarrow> [] | Some p \<Rightarrow> [hmatch s p]) @
     (case firstV s of None \<Rightarrow> [] | Some p \<Rightarrow> [vmatch s p])"

definition scanned :: "'a Board \<Rightarrow> 'a Board" where
  "scanned s =
     (let s1 = (case firstH s of None \<Rightarrow> s | Some p \<Rightarrow> noted (hmatch s p) s)
      in case firstV s of None \<Rightarrow> s1 | Some p \<Rightarrow> noted (vmatch s p) s1)"

definition hasMatch :: "'a Board \<Rightarrow> bool" where
  "hasMatch s \<longleftrightarrow> firstH s \<noteq> None \<or> firstV s \<noteq> None"

definition sameGrid :: "'a Board \<Rightarrow> 'a Board \<Rightarrow> bool" where
  "sameGrid s s' \<longleftrightarrow> board s' = board s \<and> width s' = width s \<and> height s' = height s"

text \<open>A recorded match that \<open>doMatch\<close> can clear: three positions, all in the grid.\<close>

definition validMatch :: "'a Board \<Rightarrow> 'a Match \<Rightarrow> bool" where
  "validMatch s m \<longleftrightarrow> length (positions m) = 3 \<and> list_all (inGrid s) (positions m)"

text \<open>What the refill leaves alone.\<close>

definition frame :: "'a Board \<Rightarrow> 'a Board \<Rightarrow> bool" where
  "frame s s' \<longleftrightarrow>
     width s' = width s \<and> height s' = height s \<and> listeners s' = listeners s \<and>
     generator s' = generator s \<and> matches s' = matches s \<and> events s' = events s \<and>
     delivered s' = delivered s"

text \<open>
  A column of the grid, top row first; the pieces it holds, in order; the number of its
  empty cells; \<open>k\<close> pieces drawn from the generator starting at draw number \<open>d\<close>; and
  the column after the refill: the pieces at the bottom, in order, and fresh pieces
  above them, the first drawn lowest.
\<close>

definition column :: "'c list list \<Rightarrow> int \<Rightarrow> 'c list" where
  "column g c = map (\<lambda>rw. rw ! nat c) g"

definition survivors :: "'a option list \<Rightarrow> 'a option list" where
  "survivors xs = filter (\<lambda>v. v \<noteq> None) xs"

definition empties :: "'a option list \<Rightarrow> nat" where
  "empties xs = length (filter (\<lambda>v. v = None) xs)"

definition fresh :: "(nat \<Rightarrow> 'a) \<Rightarrow> nat \<Rightarrow> nat \<Rightarrow> 'a option list" where
  "fresh gen d k = map (\<lambda>i. Some (gen i)) [d..<d + k]"

definition fallen :: "(nat \<Rightarrow> 'a) \<Rightarrow> nat \<Rightarrow> 'a option list \<Rightarrow> 'a option list" where
  "fallen gen d xs = rev (fresh gen d (empties xs)) @ survivors xs"

text \<open>
  The number of pieces drawn when the column loop of \<open>refillBoard\<close> reaches column \<open>c\<close>:
  those drawn before the call and one for each empty cell of the columns left of \<open>c\<close>.
\<close>

definition drawnBefore :: "'a Board \<Rightarrow> int \<Rightarrow> nat" where
  "drawnBefore s c = drawn s + sum_list (map (\<lambda>c'. empties (column (board s) c')) (upTo c))"

text \<open>
  The loop cut off after \<open>n\<close> scans: the board reached, and whether the last scan found
  no match, which is when the loop ends. Each pass is a scan by \<open>findMatches\<close> and, when
  it found a match, \<open>settle\<close>.
\<close>

fun cascade :: "nat \<Rightarrow> 'a Board \<Rightarrow> error + bool \<times> 'a Board" where
  "cascade 0 s = Inr (False, s)"
| "cascade (Suc n) s =
     bindE (findMatches s) (\<lambda>(found, s1).
       if found then bindE (settle s1) (cascade n) else Inr (True, s1))"

text \<open>
  What the loop makes of \<open>cascade\<close>: the board, when a scan found no match; a
  RangeError, when every scan the stack had room for found one.
\<close>

definition outcome :: "error + bool \<times> 'a Board \<Rightarrow> error + 'a Board" where
  "outcome r = bindE r (\<lambda>(settled, s). if settled then Inr s else Inl RangeError)"

text \<open>
  Sample boards: the one-row board the constructor returns for the sequence \<open>AAAB\<close>; the
  bootstrap board after swapping its first two cells, and after the move of these two
  cells; a board full of \<open>A\<close>; a board with holes; and the one-row boards on which a
  generator that only returns \<open>A\<close> never settles.
\<close>

definition rowBoard :: "string Board" where
  "rowBoard =
     \<lparr>board = [[Some ''B'', Some ''A'', Some ''A'']],
      listeners = [], generator = SequenceGenerator ''AAAB'', drawn = 6, matches = [],
      width = 3, height = 1,
      events = [MatchEvent \<lparr>matched = Some ''A'',
                  positions = [\<lparr>row = 0, col = 0\<rparr>, \<lparr>row = 0, col = 1\<rparr>, \<lparr>row = 0, col = 2\<rparr>]\<rparr>,
                RefillEvent],
      delivered = []\<rparr>"

definition swappedBoard :: "string Board" where
  "swappedBoard =
     \<lparr>board = [[Some ''B'', Some ''A'', Some ''A'', Some ''A''],
               [Some ''B'', Some ''A'', Some ''A'', Some ''B''],
               [Some ''A'', Some ''A'', Some ''B'', Some ''A'']],
      listeners = [], generator = SequenceGenerator ''ABA'', drawn = 12, matches = [],
      width = 4, height = 3, events = [], delivered = []\<rparr>"

definition movedBoard :: "string Board" where
  "movedBoard =
     \<lparr>board = [[Some ''B'', Some ''A'', Some ''A'', Some ''B''],
               [Some ''B'', Some ''B'', Some ''A'', Some ''B''],
               [Some ''A'', Some ''A'', Some ''B'', Some ''A'']],
      listeners = [], generator = SequenceGenerator ''ABA'', drawn = 17, matches = [],
      width = 4, height = 3,
      events = [MatchEvent \<lparr>matched = Some ''A'',
                  positions = [\<lparr>row = 0, col = 1\<rparr>, \<lparr>row = 0, col = 2\<rparr>, \<lparr>row = 0, col = 3\<rparr>]\<rparr>,
                MatchEvent \<lparr>matched = Some ''A'',
                  positions = [\<lparr>row = 0, col = 1\<rparr>, \<lparr>row = 1, col = 1\<rparr>, \<lparr>row = 2, col = 1\<rparr>]\<rparr>,
                RefillEvent],
      delivered = []\<rparr>"

definition fullBoard :: "string Board" where
  "fullBoard =
     \<lparr>board = [[Some ''A'', Some ''A'', Some ''A''],
               [Some ''A'', Some ''A'', Some ''A''],
               [Some ''A'', Some ''A'', Some ''A'']],
      listeners = [], generator = SequenceGenerator ''A'', drawn = 9, matches = [],
      width = 3, height = 3, events = [], delivered = []\<rparr>"

definition holeBoard :: "string Board" where
  "holeBoard =
     \<lparr>board = [[None, Some ''A''],
               [Some ''B'', None],
               [None, Some ''C'']],
      listeners = [], generator = SequenceGenerator ''XY'', drawn = 0, matches = [],
      width = 2, height = 3, events = [], delivered = []\<rparr>"

definition stuck :: "string Board \<Rightarrow> bool" where
  "stuck s \<longleftrightarrow>
     board s = [[Some ''A'', Some ''A'', Some ''A'']] \<and> width s = 3 \<and> height s = 1 \<and>
     generator s = SequenceGenerator ''A'' \<and> matches s = []"

section \<open>Array accesses stay inside the grid\<close>

lemma rowAt_inside: "0 \<le> r \<Longrightarrow> r < int (length g) \<Longrightarrow> rowAt g r = Some (g ! nat r)"
  by (simp add: rowAt_def)

lemma rect_row:
  assumes "rect s" "0 \<le> r" "r < height s"
  shows "nat r < length (board s)" and "length (board s ! nat r) = nat (width s)"
proof -
  from assms show a: "nat r < length (board s)" by (simp add: rect_def)
  from assms have "\<forall>i < length (board s). length (board s ! i) = nat (width s)"
    by (simp add: rect_def list_all_length)
  with a show "length (board s ! nat r) = nat (width s)" by blast
qed

lemma piece_outside:
  "row p < 0 \<or> col p < 0 \<or> row p \<ge> height s \<or> col p \<ge> width s \<Longrightarrow> piece s p = Inr None"
  by (simp add: piece_def)

lemma piece_inside:
  assumes "rect s" "inGrid s p"
  shows "piece s p = Inr (board s ! nat (row p) ! nat (col p))"
proof -
  from assms have r: "0 \<le> row p" "row p < height s" and c: "0 \<le> col p" "col p < width s"
    by (simp_all add: inGrid_def)
  from rect_row [OF assms(1) r] have "row p < int (length (board s))"
    and "length (board s ! nat (row p)) = nat (width s)" using r by simp_all
  with r c show ?thesis
    by (simp add: piece_def readCell_def rowAt_def)
qed

lemma piece_fn_eq: "piece_fn s p = piece s p"
  by (auto simp: piece_fn_def piece_def)

lemma rect_initBoard: "rect initBoard"
  by (simp add: rect_def initBoard_def)

text \<open>
  C9. For a position outside \<open>[0, height) \<times> [0, width)\<close>, \<open>piece\<close> returns empty without
  touching the arrays, whatever they hold; for a position inside a \<open>height \<times> width\<close> grid
  both indices are indices of the arrays, no error is raised and the stored cell is
  returned. The functional module's \<open>piece\<close> does the same.
\<close>

theorem piece_bounds_safe:
  "(row p < 0 \<or> col p < 0 \<or> row p \<ge> height s \<or> col p \<ge> width s
      \<longrightarrow> piece s p = Inr None \<and> piece_fn s p = Inr None) \<and>
   (rect s \<and> inGrid s p
      \<longrightarrow> nat (row p) < length (board s) \<and> nat (col p) < length (board s ! nat (row p)) \<and>
          piece s p = Inr (board s ! nat (row p) ! nat (col p)) \<and>
          piece_fn s p = Inr (board s ! nat (row p) ! nat (col p)))"
proof (intro conjI impI)
  assume "row p < 0 \<or> col p < 0 \<or> row p \<ge> height s \<or> col p \<ge> width s"
  then show "piece s p = Inr None" by (rule piece_outside)
  then show "piece_fn s p = Inr None" by (simp add: piece_fn_eq)
next
  assume a: "rect s \<and> inGrid s p"
  then have r: "0 \<le> row p" "row p < height s" and c: "0 \<le> col p" "col p < width s"
    by (simp_all add: inGrid_def)
  from a rect_row [of s "row p"] r show "nat (row p) < length (board s)" by simp
  from a rect_row [of s "row p"] r c show "nat (col p) < length (board s ! nat (row p))" by simp
  from a show "piece s p = Inr (board s ! nat (row p) ! nat (col p))" by (simp add: piece_inside)
  then show "piece_fn s p = Inr (board s ! nat (row p) ! nat (col p))" by (simp add: piece_fn_eq)
qed

theorem piece_bounds_safe_witness:
  "rect initBoard \<and> inGrid initBoard \<lparr>row = 1, col = 3\<rparr> \<and>
   piece initBoard \<lparr>row = 1, col = 3\<rparr> = Inr (Some ''B'') \<and>
   piece_fn initBoard \<lparr>row = 1, col = 3\<rparr> = Inr (Some ''B'') \<and>
   row \<lparr>row = 3, col = 0\<rparr> \<ge> height initBoard \<and>
   piece initBoard \<lparr>row = 3, col = 0\<rparr> = Inr None \<and>
   piece_fn initBoard \<lparr>row = - 1, col = 7\<rparr> = Inr None"
proof -
  have i: "inGrid initBoard \<lparr>row = 1, col = 3\<rparr>" by (simp add: inGrid_def initBoard_def)
  have o: "row \<lparr>row = 3, col = 0\<rparr> \<ge> height initBoard" by (simp add: initBoard_def)
  have o': "row \<lparr>row = - 1, col = 7\<rparr> < 0" by simp
  have v: "board initBoard ! nat 1 ! nat 3 = Some ''B''" by (simp add: initBoard_def)
  from piece_bounds_safe [of "\<lparr>row = 1, col = 3\<rparr>" initBoard] rect_initBoard i v
  have "piece initBoard \<lparr>row = 1, col = 3\<rparr> = Inr (Some ''B'')"
    and "piece_fn initBoard \<lparr>row = 1, col = 3\<rparr> = Inr (Some ''B'')" by simp_all
  moreover from piece_bounds_safe [of "\<lparr>row = 3, col = 0\<rparr>" initBoard] o
  have "piece initBoard \<lparr>row = 3, col = 0\<rparr> = Inr None" by blast
  moreover from piece_bounds_safe [of "\<lparr>row = - 1, col = 7\<rparr>" initBoard] o'
  have "piece_fn initBoard \<lparr>row = - 1, col = 7\<rparr> = Inr None" by blast
  ultimately show ?thesis using rect_initBoard i o by blast
qed

section \<open>Swapping two cells\<close>

lemma rect_shaped: "rect s \<longleftrightarrow> shaped (height s) (width s) (board s)"
  by (simp add: rect_def shaped_def)

lemma shaped_row:
  assumes "shaped h w g" "0 \<le> r" "r < h"
  shows "nat r < length g" and "length (g ! nat r) = nat w"
proof -
  from assms show a: "nat r < length g" by (simp add: shaped_def)
  from assms have "\<forall>i < length g. length (g ! i) = nat w"
    by (simp add: shaped_def list_all_length)
  with a show "length (g ! nat r) = nat w" by blast
qed

lemma readCell_shaped:
  assumes "shaped h w g" "0 \<le> r" "r < h" "0 \<le> c" "c < w"
  shows "readCell g r c = Inr (cell g r c)"
  using shaped_row [OF assms(1-3)] assms by (simp add: readCell_def rowAt_def cell_def)

lemma writeCell_shaped:
  assumes "shaped h w g" "0 \<le> r" "r < h" "0 \<le> c" "c < w"
  shows "writeCell g r c v = Inr (put g r c v)"
  using shaped_row [OF assms(1-3)] assms by (simp add: writeCell_def rowAt_def put_def)

lemma shaped_put:
  assumes "shaped h w g"
  shows "shaped h w (put g r c v)"
proof -
  from assms have l: "length g = nat h" and rows: "\<forall>i < length g. length (g ! i) = nat w"
    by (simp_all add: shaped_def list_all_length)
  have "\<forall>i < length (put g r c v). length (put g r c v ! i) = nat w"
  proof (intro allI impI)
    fix i assume "i < length (put g r c v)"
    then have i: "i < length g" by (simp add: put_def)
    show "length (put g r c v ! i) = nat w"
    proof (cases "i = nat r")
      case True
      with i rows show ?thesis by (simp add: put_def)
    next
      case False
      with i rows show ?thesis by (simp add: put_def)
    qed
  qed
  with l show ?thesis by (simp add: shaped_def list_all_length put_def)
qed

lemma cell_put:
  assumes "shaped h w g" "0 \<le> r" "r < h" "0 \<le> c" "c < w" "0 \<le> r'" "0 \<le> c'"
  shows "cell (put g r c v) r' c' = (if r' = r \<and> c' = c then v else cell g r' c')"
proof -
  from shaped_row [OF assms(1-3)] have a: "nat r < length g" "length (g ! nat r) = nat w" .
  from assms have n: "nat r' = nat r \<longleftrightarrow> r' = r" "nat c' = nat c \<longleftrightarrow> c' = c" by auto
  show ?thesis using a assms(4,5) n
    by (auto simp: cell_def put_def nth_list_update)
qed

lemma grid_ext:
  assumes "shaped h w g" "shaped h w g'"
    and eq: "\<And>r c. 0 \<le> r \<Longrightarrow> r < h \<Longrightarrow> 0 \<le> c \<Longrightarrow> c < w \<Longrightarrow> cell g r c = cell g' r c"
  shows "g = g'"
proof (rule nth_equalityI)
  from assms show "length g = length g'" by (simp add: shaped_def)
next
  fix i assume i: "i < length g"
  with assms(1) have ih: "0 \<le> int i" "int i < h" by (simp_all add: shaped_def)
  from shaped_row [OF assms(1) ih] shaped_row [OF assms(2) ih]
  have li: "length (g ! i) = nat w" "length (g' ! i) = nat w" by simp_all
  show "g ! i = g' ! i"
  proof (rule nth_equalityI)
    from li show "length (g ! i) = length (g' ! i)" by simp
  next
    fix j assume "j < length (g ! i)"
    with li have "0 \<le> int j" "int j < w" by simp_all
    from eq [OF ih this] show "g ! i ! j = g' ! i ! j" by (simp add: cell_def)
  qed
qed

lemma piece_look: "rect s \<Longrightarrow> piece s p = Inr (look s p)"
proof (cases "inGrid s p")
  case True
  assume "rect s"
  with True show ?thesis by (simp add: piece_inside look_def cell_def)
next
  case False
  then have "row p < 0 \<or> col p < 0 \<or> row p \<ge> height s \<or> col p \<ge> width s"
    by (auto simp: inGrid_def)
  with False show ?thesis by (simp add: piece_outside look_def)
qed

lemma inGrid_board [simp]:
  "inGrid (s\<lparr>board := g\<rparr>) p = inGrid s p"
  by (simp add: inGrid_def)

lemma change_swapped:
  assumes "rect s" "inGrid s a" "inGrid s b"
  shows "change s a b = Inr (swapped s a b)"
proof -
  from assms(1) have sh: "shaped (height s) (width s) (board s)" by (simp add: rect_shaped)
  from assms(2) have a: "0 \<le> row a" "row a < height s" "0 \<le> col a" "col a < width s"
    by (simp_all add: inGrid_def)
  from assms(3) have b: "0 \<le> row b" "row b < height s" "0 \<le> col b" "col b < width s"
    by (simp_all add: inGrid_def)
  have w1: "writeCell (board s) (row a) (col a) (look s b)
              = Inr (put (board s) (row a) (col a) (look s b))"
    by (rule writeCell_shaped [OF sh a])
  have w2: "writeCell (put (board s) (row a) (col a) (look s b)) (row b) (col b) (look s a)
              = Inr (put (put (board s) (row a) (col a) (look s b)) (row b) (col b) (look s a))"
    by (rule writeCell_shaped [OF shaped_put [OF sh] b])
  show ?thesis
    by (simp add: change_def piece_look [OF assms(1)] w1 w2 swapped_def)
qed

lemma rect_swapped: "rect s \<Longrightarrow> rect (swapped s a b)"
  by (simp add: rect_shaped swapped_def shaped_put)

lemma look_swapped:
  assumes "rect s" "inGrid s a" "inGrid s b"
  shows "look (swapped s a b) p =
           (if p = b then look s a else if p = a then look s b else look s p)"
proof (cases "inGrid s p")
  case False
  with assms show ?thesis by (auto simp: look_def swapped_def)
next
  case True
  from assms(1) have sh: "shaped (height s) (width s) (board s)" by (simp add: rect_shaped)
  from assms(2) have a: "0 \<le> row a" "row a < height s" "0 \<le> col a" "col a < width s"
    by (simp_all add: inGrid_def)
  from assms(3) have b: "0 \<le> row b" "row b < height s" "0 \<le> col b" "col b < width s"
    by (simp_all add: inGrid_def)
  from True have p: "0 \<le> row p" "0 \<le> col p" by (simp_all add: inGrid_def)
  have pa: "p = a \<longleftrightarrow> row p = row a \<and> col p = col a"
   and pb: "p = b \<longleftrightarrow> row p = row b \<and> col p = col b" by auto
  have "look (swapped s a b) p
          = cell (put (put (board s) (row a) (col a) (look s b)) (row b) (col b) (look s a)) (row p) (col p)"
    using True by (simp add: look_def swapped_def)
  also have "\<dots> = (if row p = row b \<and> col p = col b then look s a
                    else cell (put (board s) (row a) (col a) (look s b)) (row p) (col p))"
    by (rule cell_put [OF shaped_put [OF sh] b p])
  also have "cell (put (board s) (row a) (col a) (look s b)) (row p) (col p)
               = (if row p = row a \<and> col p = col a then look s b else cell (board s) (row p) (col p))"
    by (rule cell_put [OF sh a p])
  finally have "look (swapped s a b) p =
      (if row p = row b \<and> col p = col b then look s a
       else if row p = row a \<and> col p = col a then look s b else cell (board s) (row p) (col p))" .
  moreover have "cell (board s) (row p) (col p) = look s p" using True by (simp add: look_def)
  ultimately show ?thesis by (simp only: pa pb)
qed

lemma board_ext:
  assumes "rect s" "rect s'" "height s' = height s" "width s' = width s"
    and "\<And>p. inGrid s p \<Longrightarrow> look s' p = look s p"
  shows "board s' = board s"
proof (rule grid_ext [of "height s" "width s"])
  from assms show "shaped (height s) (width s) (board s')" "shaped (height s) (width s) (board s)"
    by (simp_all add: rect_shaped)
next
  fix r c assume rc: "0 \<le> r" "r < height s" "0 \<le> c" "c < width s"
  then have i: "inGrid s \<lparr>row = r, col = c\<rparr>" by (simp add: inGrid_def)
  then have i': "inGrid s' \<lparr>row = r, col = c\<rparr>" using assms(3,4) by (simp add: inGrid_def)
  from assms(5) [OF i] i i' show "cell (board s') r c = cell (board s) r c"
    by (simp add: look_def)
qed

lemma swapped_fields [simp]:
  "height (swapped s a b) = height s" "width (swapped s a b) = width s"
  "matches (swapped s a b) = matches s" "listeners (swapped s a b) = listeners s"
  "events (swapped s a b) = events s" "delivered (swapped s a b) = delivered s"
  "generator (swapped s a b) = generator s" "drawn (swapped s a b) = drawn s"
  by (simp_all add: swapped_def)

lemma inGrid_swapped [simp]: "inGrid (swapped s a b) p = inGrid s p"
  by (simp add: swapped_def)

lemma swapped_twice:
  assumes "rect s" "inGrid s a" "inGrid s b"
  shows "swapped (swapped s a b) a b = s"
proof -
  let ?t = "swapped s a b" and ?u = "swapped (swapped s a b) a b"
  have rt: "rect ?t" by (rule rect_swapped [OF assms(1)])
  have ru: "rect ?u" by (rule rect_swapped [OF rt])
  have "board ?u = board s"
  proof (rule board_ext [OF assms(1) ru])
    fix p assume "inGrid s p"
    have "look ?u p = (if p = b then look ?t a else if p = a then look ?t b else look ?t p)"
      using rt assms by (simp add: look_swapped)
    then show "look ?u p = look s p"
      using assms by (simp add: look_swapped)
  qed simp_all
  moreover have "?u = s\<lparr>board := board ?u\<rparr>" by (simp add: swapped_def)
  ultimately show ?thesis by simp
qed

lemma swapped_commute:
  assumes "rect s" "inGrid s a" "inGrid s b"
  shows "swapped s a b = swapped s b a"
proof -
  let ?t = "swapped s a b" and ?u = "swapped s b a"
  have "board ?u = board ?t"
  proof (rule board_ext)
    show "rect ?t" "rect ?u" using assms by (simp_all add: rect_swapped)
    fix p assume "inGrid ?t p"
    show "look ?u p = look ?t p"
      using assms by (auto simp: look_swapped)
  qed simp_all
  moreover have "?u = s\<lparr>board := board ?u\<rparr>" "?t = s\<lparr>board := board ?t\<rparr>" by (simp_all add: swapped_def)
  ultimately show ?thesis by simp
qed

section \<open>Swap validation\<close>

lemma columnWindows_rect:
  "rect s \<Longrightarrow> columnWindows s r t is = Inr (list_ex (hwin s r t) is)"
  by (induction "is") (auto simp: piece_look hwin_def)

lemma rowWindows_rect:
  "rect s \<Longrightarrow> rowWindows s c t is = Inr (list_ex (vwin s c t) is)"
  by (induction "is") (auto simp: piece_look vwin_def)

lemma evaluateColumnMatch_rect:
  "rect s \<Longrightarrow> evaluateColumnMatch s p t = Inr (list_ex (hwin s (row p) t) (around (col p)))"
  unfolding evaluateColumnMatch_def Let_def around_def by (rule columnWindows_rect)

lemma evaluateRowMatch_rect:
  "rect s \<Longrightarrow> evaluateRowMatch s p t = Inr (list_ex (vwin s (col p) t) (around (row p)))"
  unfolding evaluateRowMatch_def Let_def around_def by (rule rowWindows_rect)

lemma look_Some_inGrid: "look s p = Some x \<Longrightarrow> inGrid s p"
  by (simp add: look_def split: if_splits)

lemma canMove_rect:
  assumes "rect s"
  shows "canMove s a b = Inr (legal s a b, s)"
proof (cases "look s a")
  case None
  then show ?thesis by (simp add: canMove_def piece_look [OF assms] legal_def)
next
  case (Some x)
  note A = this
  show ?thesis
  proof (cases "look s b")
    case None
    with A show ?thesis by (simp add: canMove_def piece_look [OF assms] legal_def)
  next
    case (Some y)
    from A Some have ia: "inGrid s a" and ib: "inGrid s b" by (auto dest: look_Some_inGrid)
    have r1: "rect (swapped s a b)" by (rule rect_swapped [OF assms])
    have c1: "change s a b = Inr (swapped s a b)" by (rule change_swapped [OF assms ia ib])
    have c2: "change (swapped s a b) a b = Inr s"
      using change_swapped [OF r1, of a b] ia ib swapped_twice [OF assms ia ib] by simp
    show ?thesis
      by (simp add: canMove_def piece_look [OF assms] A Some legal_def c1 c2
            evaluateColumnMatch_rect [OF r1] evaluateRowMatch_rect [OF r1] Let_def)
  qed
qed

lemma legal_sym:
  assumes "rect s"
  shows "legal s a b = legal s b a"
proof (cases "look s a")
  case None
  then show ?thesis by (simp add: legal_def split: option.splits)
next
  case (Some x)
  note A = this
  show ?thesis
  proof (cases "look s b")
    case None
    with A show ?thesis by (simp add: legal_def)
  next
    case (Some y)
    from A Some have ia: "inGrid s a" and ib: "inGrid s b" by (auto dest: look_Some_inGrid)
    have "swapped s a b = swapped s b a" by (rule swapped_commute [OF assms ia ib])
    with A Some show ?thesis by (auto simp: legal_def Let_def)
  qed
qed


section \<open>Claims about swap validation\<close>

text \<open>
  C7. Swap legality is symmetric: on every rectangular board \<open>canMove(a, b)\<close> and
  \<open>canMove(b, a)\<close> return the same boolean (and leave the same board).
\<close>

theorem canMove_symmetric:
  "rect s \<Longrightarrow> canMove s a b = canMove s b a"
  by (simp add: canMove_rect legal_sym)

theorem canMove_symmetric_witness:
  "rect initBoard \<and>
   canMove initBoard \<lparr>row = 0, col = 0\<rparr> \<lparr>row = 0, col = 1\<rparr> = Inr (True, initBoard) \<and>
   canMove initBoard \<lparr>row = 0, col = 1\<rparr> \<lparr>row = 0, col = 0\<rparr> = Inr (True, initBoard)"
proof -
  have l: "legal initBoard \<lparr>row = 0, col = 0\<rparr> \<lparr>row = 0, col = 1\<rparr>"
    by (simp add: legal_def look_def inGrid_def cell_def swapped_def put_def hwin_def around_def
          initBoard_def)
  have "canMove initBoard \<lparr>row = 0, col = 0\<rparr> \<lparr>row = 0, col = 1\<rparr> = Inr (True, initBoard)"
    using canMove_rect [OF rect_initBoard] l by simp
  with canMove_symmetric [OF rect_initBoard, of "\<lparr>row = 0, col = 0\<rparr>" "\<lparr>row = 0, col = 1\<rparr>"]
  show ?thesis using rect_initBoard by simp
qed

text \<open>
  C6. \<open>canMove\<close> returns the board it was given, for any two positions, inside the grid
  or not; and \<open>change\<close> applied twice to two positions of the grid gives the board back.
\<close>

theorem canMove_pure:
  "rect s \<Longrightarrow>
     map_sum id snd (canMove s a b) = Inr s \<and>
     (inGrid s a \<and> inGrid s b \<longrightarrow> bindE (change s a b) (\<lambda>s1. change s1 a b) = Inr s)"
proof (intro conjI impI)
  assume r: "rect s"
  then show "map_sum id snd (canMove s a b) = Inr s" by (simp add: canMove_rect)
  assume i: "inGrid s a \<and> inGrid s b"
  then have ia: "inGrid s a" and ib: "inGrid s b" by simp_all
  have r1: "rect (swapped s a b)" by (rule rect_swapped [OF r])
  have c1: "change s a b = Inr (swapped s a b)" by (rule change_swapped [OF r ia ib])
  have c2: "change (swapped s a b) a b = Inr s"
    using change_swapped [OF r1, of a b] ia ib swapped_twice [OF r ia ib] by simp
  show "bindE (change s a b) (\<lambda>s1. change s1 a b) = Inr s" by (simp add: c1 c2)
qed

theorem canMove_pure_witness:
  "rect initBoard \<and> inGrid initBoard \<lparr>row = 0, col = 0\<rparr> \<and> inGrid initBoard \<lparr>row = 0, col = 1\<rparr> \<and>
   map_sum id snd (canMove initBoard \<lparr>row = 0, col = 0\<rparr> \<lparr>row = 0, col = 1\<rparr>) = Inr initBoard \<and>
   bindE (change initBoard \<lparr>row = 0, col = 0\<rparr> \<lparr>row = 0, col = 1\<rparr>)
     (\<lambda>s1. change s1 \<lparr>row = 0, col = 0\<rparr> \<lparr>row = 0, col = 1\<rparr>) = Inr initBoard"
proof -
  have i: "inGrid initBoard \<lparr>row = 0, col = 0\<rparr>" "inGrid initBoard \<lparr>row = 0, col = 1\<rparr>"
    by (simp_all add: inGrid_def initBoard_def)
  from canMove_pure [OF rect_initBoard, of "\<lparr>row = 0, col = 0\<rparr>" "\<lparr>row = 0, col = 1\<rparr>"] i
  show ?thesis using rect_initBoard by simp
qed

text \<open>
  C5. When \<open>canMove(a, b)\<close> is false, \<open>move(a, b)\<close> returns normally with the board it was
  given: the same cells, no event emitted, no piece drawn from the generator; and this
  whatever room the stack has.
\<close>

theorem illegal_move_noop:
  "rect s \<Longrightarrow> map_sum id fst (canMove s a b) = Inr False \<Longrightarrow> move depth s a b = Some (Inr s)"
  by (simp add: canMove_rect move_def)

theorem illegal_move_noop_witness:
  "rect initBoard \<and>
   map_sum id fst (canMove initBoard \<lparr>row = 0, col = 0\<rparr> \<lparr>row = 1, col = 3\<rparr>) = Inr False \<and>
   move 0 initBoard \<lparr>row = 0, col = 0\<rparr> \<lparr>row = 1, col = 3\<rparr> = Some (Inr initBoard) \<and>
   move 1000 initBoard \<lparr>row = 0, col = 0\<rparr> \<lparr>row = 1, col = 3\<rparr> = Some (Inr initBoard)"
proof -
  have c: "map_sum id fst (canMove initBoard \<lparr>row = 0, col = 0\<rparr> \<lparr>row = 1, col = 3\<rparr>) = Inr False"
    by (simp add: canMove_def piece_def readCell_def rowAt_def initBoard_def)
  from illegal_move_noop [OF rect_initBoard c] c rect_initBoard show ?thesis by simp
qed

text \<open>
  C3. The directional checks visit the windows that start at \<open>pos - 2\<close>, ..., \<open>pos + 2\<close>,
  and the last two do not contain the target position. On the row \<open>A B A A A\<close> the check
  at column 0 for \<open>A\<close> answers true, through the window of columns 2 to 4, although the
  only window of the grid that contains column 0 holds a \<open>B\<close> and the same loop over
  the starts \<open>pos - 2\<close>, \<open>pos - 1\<close>, \<open>pos\<close> answers false; likewise in a column. So
  \<open>canMove\<close> accepts the swap of the first two cells of \<open>B A A A A\<close>, which puts neither
  cell into a run.
\<close>

theorem directional_check_overreach:
  "evaluateColumnMatch lineBoard \<lparr>row = 0, col = 0\<rparr> ''A'' = Inr True \<and>
   piece lineBoard \<lparr>row = 0, col = 1\<rparr> = Inr (Some ''B'') \<and>
   columnWindows lineBoard 0 ''A'' [0 - 2, 0 - 1, 0] = Inr False \<and>
   evaluateRowMatch towerBoard \<lparr>row = 0, col = 0\<rparr> ''A'' = Inr True \<and>
   piece towerBoard \<lparr>row = 1, col = 0\<rparr> = Inr (Some ''B'') \<and>
   rowWindows towerBoard 0 ''A'' [0 - 2, 0 - 1, 0] = Inr False \<and>
   change runBoard \<lparr>row = 0, col = 0\<rparr> \<lparr>row = 0, col = 1\<rparr> = Inr lineBoard \<and>
   canMove runBoard \<lparr>row = 0, col = 0\<rparr> \<lparr>row = 0, col = 1\<rparr> = Inr (True, runBoard)"
  by (simp add: evaluateColumnMatch_def evaluateRowMatch_def piece_def readCell_def rowAt_def
        canMove_def change_def writeCell_def lineBoard_def towerBoard_def runBoard_def)

section \<open>The scan of \<open>findMatches\<close>\<close>

lemma sameGrid_refl [simp]: "sameGrid s s" by (simp add: sameGrid_def)

lemma sameGrid_noted [simp]: "sameGrid s (noted m s') = sameGrid s s'"
  by (simp add: sameGrid_def noted_def alert_def Let_def)

lemma sameGrid_look: "sameGrid s s' \<Longrightarrow> look s' p = look s p"
  by (simp add: sameGrid_def look_def inGrid_def)

lemma sameGrid_rect: "sameGrid s s' \<Longrightarrow> rect s' = rect s"
  by (simp add: sameGrid_def rect_def)

lemma findColumnMatch_rect:
  assumes "rect s"
  shows "findColumnMatch s r c = Inr (if hrun s (r, c) then (True, noted (hmatch s (r, c)) s) else (False, s))"
  by (auto simp: findColumnMatch_def piece_look [OF assms] hrun_def hmatch_def noted_def Let_def)

lemma findRowMatch_rect:
  assumes "rect s"
  shows "findRowMatch s r c = Inr (if vrun s (r, c) then (True, noted (vmatch s (r, c)) s) else (False, s))"
  by (auto simp: findRowMatch_def piece_look [OF assms] vrun_def vmatch_def noted_def Let_def)

lemma scanFor_found: "scanFor finder ps True s = Inr (True, s)"
  by (induction ps) auto

lemma scanFor_first:
  assumes "\<And>s' r c. sameGrid s s' \<Longrightarrow>
             finder s' r c = Inr (if run (r, c) then (True, noted (mk (r, c)) s') else (False, s'))"
  shows "sameGrid s s' \<Longrightarrow>
         scanFor finder ps False s' =
           Inr (case find run ps of None \<Rightarrow> (False, s') | Some p \<Rightarrow> (True, noted (mk p) s'))"
proof (induction ps arbitrary: s')
  case Nil
  then show ?case by simp
next
  case (Cons p ps)
  obtain r c where p: "p = (r, c)" by (cases p)
  show ?case
  proof (cases "run (r, c)")
    case True
    then show ?thesis using Cons.prems by (simp add: p assms scanFor_found)
  next
    case False
    then show ?thesis using Cons.prems Cons.IH [OF Cons.prems] by (simp add: p assms)
  qed
qed

lemma findMatches_rect:
  assumes "rect s"
  shows "findMatches s = Inr (hasMatch s, scanned s)"
proof -
  have h: "scanFor findColumnMatch (cells (height s) (width s - 2)) False s =
             Inr (case firstH s of None \<Rightarrow> (False, s) | Some p \<Rightarrow> (True, noted (hmatch s p) s))"
    unfolding firstH_def
  proof (rule scanFor_first)
    fix s' r c assume g: "sameGrid s s'"
    then have "rect s'" using assms by (simp add: sameGrid_rect)
    from findColumnMatch_rect [OF this, of r c] g
    show "findColumnMatch s' r c =
            Inr (if hrun s (r, c) then (True, noted (hmatch s (r, c)) s') else (False, s'))"
      by (simp add: hrun_def hmatch_def sameGrid_look)
  qed simp
  define s1 where "s1 = (case firstH s of None \<Rightarrow> s | Some p \<Rightarrow> noted (hmatch s p) s)"
  have g1: "sameGrid s s1" by (simp add: s1_def split: option.splits)
  have v: "scanFor findRowMatch (cells (height s - 2) (width s)) False s1 =
             Inr (case firstV s of None \<Rightarrow> (False, s1) | Some p \<Rightarrow> (True, noted (vmatch s p) s1))"
    unfolding firstV_def
  proof (rule scanFor_first)
    fix s' r c assume g: "sameGrid s s'"
    then have "rect s'" using assms by (simp add: sameGrid_rect)
    from findRowMatch_rect [OF this, of r c] g
    show "findRowMatch s' r c =
            Inr (if vrun s (r, c) then (True, noted (vmatch s (r, c)) s') else (False, s'))"
      by (simp add: vrun_def vmatch_def sameGrid_look)
  qed (rule g1)
  have d: "height s1 = height s" "width s1 = width s" using g1 by (simp_all add: sameGrid_def)
  have h': "scanFor findColumnMatch (cells (height s) (width s - 2)) False s = Inr (firstH s \<noteq> None, s1)"
    by (simp add: h s1_def split: option.splits)
  have "findMatches s =
          Inr (case firstV s of None \<Rightarrow> (firstH s \<noteq> None, s1) | Some p \<Rightarrow> (True, noted (vmatch s p) s1))"
    by (simp add: findMatches_def h' d v split: option.splits)
  then show ?thesis
    by (simp add: hasMatch_def scanned_def s1_def Let_def split: option.splits)
qed

section \<open>Columns after a refill\<close>

lemma survivors_append [simp]: "survivors (xs @ ys) = survivors xs @ survivors ys"
  by (simp add: survivors_def)

lemma empties_append [simp]: "empties (xs @ ys) = empties xs + empties ys"
  by (simp add: empties_def)

lemma survivors_simps [simp]:
  "survivors [] = []" "survivors (None # xs) = survivors xs"
  "survivors (Some v # xs) = Some v # survivors xs"
  by (simp_all add: survivors_def)

lemma empties_simps [simp]:
  "empties [] = 0" "empties (None # xs) = Suc (empties xs)" "empties (Some v # xs) = empties xs"
  by (simp_all add: empties_def)

lemma all_None:
  assumes "\<forall>i < length ys. ys ! i = None"
  shows "survivors ys = []" and "empties ys = length ys"
proof -
  from assms have "\<forall>v \<in> set ys. v = None" by (auto simp: in_set_conv_nth)
  then show "survivors ys = []" and "empties ys = length ys"
    by (induction ys) auto
qed

lemma fresh_Suc: "fresh gen d (Suc k) = Some (gen d) # fresh gen (Suc d) k"
  by (simp add: fresh_def upt_rec)

lemma fallen_Some: "fallen gen d (ys @ [Some v]) = fallen gen d ys @ [Some v]"
  by (simp add: fallen_def)

lemma fallen_draw:
  assumes "\<forall>i < length ys. ys ! i = None"
  shows "fallen gen (Suc d) ys @ [Some (gen d)] = fallen gen d (ys @ [None])"
  using all_None [OF assms] by (simp add: fallen_def fresh_Suc)

lemma fallen_pull:
  assumes j: "j < length ys" and v: "ys ! j = Some v"
    and above: "\<forall>i. j < i \<and> i < length ys \<longrightarrow> ys ! i = None"
  shows "fallen gen d (ys[j := None]) @ [Some v] = fallen gen d (ys @ [None])"
proof -
  let ?a = "take j ys" and ?b = "drop (Suc j) ys"
  have ys: "ys = ?a @ Some v # ?b" using id_take_nth_drop [OF j] v by simp
  have upd: "ys[j := None] = ?a @ None # ?b" using j by (simp add: upd_conv_take_nth_drop)
  have "\<forall>i < length ?b. ?b ! i = None" using above j by simp
  from all_None [OF this] have b: "survivors ?b = []" "empties ?b = length ?b" .
  have e: "empties (ys[j := None]) = empties (ys @ [None])"
    by (subst upd, subst (2) ys) simp
  have s: "survivors (ys[j := None]) @ [Some v] = survivors (ys @ [None])"
    by (subst upd, subst (2) ys) (simp add: b)
  show ?thesis by (simp add: fallen_def e s [simplified])
qed

lemma length_fallen: "length (fallen gen d xs) = length xs"
proof -
  have "length (filter (\<lambda>v. v = None) xs) + length (filter (\<lambda>v. v \<noteq> None) xs) = length xs"
    using sum_length_filter_compl [of "\<lambda>v. v = None" xs] by simp
  then show ?thesis by (simp add: fallen_def fresh_def empties_def survivors_def)
qed

section \<open>One cell of the refill\<close>

lemma frame_refl [simp]: "frame s s" by (simp add: frame_def)

lemma frame_trans: "frame s s1 \<Longrightarrow> frame s1 s2 \<Longrightarrow> frame s s2" by (simp add: frame_def)

lemma length_column [simp]: "length (column g c) = length g"
  by (simp add: column_def)

lemma length_put [simp]: "length (put g r c v) = length g"
  by (simp add: put_def)

lemma column_nth:
  assumes "shaped h w g" "0 \<le> r" "r < h"
  shows "column g c ! nat r = cell g r c"
  using shaped_row(1) [OF assms] by (simp add: column_def cell_def)

lemma column_put_same:
  assumes "shaped h w g" "0 \<le> r" "r < h" "0 \<le> c" "c < w"
  shows "column (put g r c v) c = (column g c)[nat r := v]"
proof (rule nth_equalityI)
  show "length (column (put g r c v) c) = length ((column g c)[nat r := v])" by simp
next
  fix i assume "i < length (column (put g r c v) c)"
  then have i: "i < length g" by simp
  from shaped_row [OF assms(1-3)] assms have r: "nat r < length g" "nat c < length (g ! nat r)"
    by simp_all
  show "column (put g r c v) c ! i = (column g c)[nat r := v] ! i"
    using i r by (cases "i = nat r") (simp_all add: column_def put_def)
qed

lemma column_put_other:
  assumes "0 \<le> c" "0 \<le> c'" "c' \<noteq> c"
  shows "column (put g r c v) c' = column g c'"
proof (rule nth_equalityI)
  show "length (column (put g r c v) c') = length (column g c')" by simp
next
  fix i assume "i < length (column (put g r c v) c')"
  then have i: "i < length g" by simp
  from assms have "nat c' \<noteq> nat c" by simp
  then show "column (put g r c v) c' ! i = column g c' ! i"
    using i by (cases "i = nat r") (simp_all add: column_def put_def)
qed

lemma findAbove_shaped:
  "shaped h w g \<Longrightarrow> 0 \<le> c \<Longrightarrow> c < w \<Longrightarrow> k < h \<Longrightarrow> - 1 \<le> k \<Longrightarrow>
         \<exists>j. findAbove g c k = Inr j \<and> - 1 \<le> j \<and> j \<le> k \<and>
             (0 \<le> j \<longrightarrow> column g c ! nat j \<noteq> None) \<and>
             (\<forall>i. j < i \<and> i \<le> k \<longrightarrow> column g c ! nat i = None)"
proof (induction g c k rule: findAbove.induct)
  case (1 g c k)
  show ?case
  proof (cases "k \<ge> 0")
    case False
    with "1.prems" have "k = - 1" by simp
    then show ?thesis by (subst findAbove.simps) auto
  next
    case True
    have rd: "readCell g k c = Inr (cell g k c)"
      using readCell_shaped [of h w g k c] "1.prems" True by simp
    have cn: "column g c ! nat k = cell g k c"
      using column_nth [of h w g k c] "1.prems" True by simp
    show ?thesis
    proof (cases "cell g k c = None")
      case False
      then show ?thesis using True rd cn
        by (subst findAbove.simps) auto
    next
      case None: True
      from "1.IH" [OF True rd None] "1.prems" True
      obtain j where j: "findAbove g c (k - 1) = Inr j" "- 1 \<le> j" "j \<le> k - 1"
        "0 \<le> j \<longrightarrow> column g c ! nat j \<noteq> None"
        "\<forall>i. j < i \<and> i \<le> k - 1 \<longrightarrow> column g c ! nat i = None" by auto
      have "\<forall>i. j < i \<and> i \<le> k \<longrightarrow> column g c ! nat i = None"
      proof (intro allI impI)
        fix i assume i: "j < i \<and> i \<le> k"
        show "column g c ! nat i = None"
        proof (cases "i = k")
          case True
          then show ?thesis using cn None by simp
        next
          case False
          with i j(5) show ?thesis by simp
        qed
      qed
      with j show ?thesis using True rd None
        by (subst findAbove.simps) auto
    qed
  qed
qed

lemma empties_pull:
  assumes j: "j < length ys" and v: "ys ! j = Some v"
  shows "empties (ys[j := None]) = Suc (empties ys)"
proof -
  have ys: "ys = take j ys @ Some v # drop (Suc j) ys" using id_take_nth_drop [OF j] v by simp
  have upd: "ys[j := None] = take j ys @ None # drop (Suc j) ys"
    using j by (simp add: upd_conv_take_nth_drop)
  show ?thesis by (subst upd, subst (3) ys) simp
qed

lemma refillCell_rect:
  assumes "rect s" "0 \<le> c" "c < width s" "0 \<le> r" "r < height s"
  shows "\<exists>s'. refillCell c r s = Inr s' \<and> rect s' \<and> frame s s' \<and>
     (\<forall>c'. 0 \<le> c' \<and> c' \<noteq> c \<longrightarrow> column (board s') c' = column (board s) c') \<and>
     drop (Suc (nat r)) (column (board s') c) = drop (Suc (nat r)) (column (board s) c) \<and>
     fallen (generator s) (drawn s') (take (nat r) (column (board s') c)) @ [column (board s') c ! nat r]
        = fallen (generator s) (drawn s) (take (Suc (nat r)) (column (board s) c)) \<and>
     drawn s' + empties (take (nat r) (column (board s') c))
        = drawn s + empties (take (Suc (nat r)) (column (board s) c))"
proof -
  let ?g = "board s" and ?h = "height s" and ?w = "width s"
  let ?xs = "column (board s) c" and ?n = "nat r"
  from assms(1) have sh: "shaped ?h ?w ?g" by (simp add: rect_shaped)
  have len: "length ?xs = nat ?h" using sh by (simp add: shaped_def)
  have n: "?n < length ?xs" using len assms by simp
  have tk: "take (Suc ?n) ?xs = take ?n ?xs @ [?xs ! ?n]" using n by (simp add: take_Suc_conv_app_nth)
  have rd: "readCell ?g r c = Inr (?xs ! ?n)"
    using readCell_shaped [OF sh assms(4,5,2,3)] column_nth [OF sh assms(4,5), of c] by simp
  show ?thesis
  proof (cases "?xs ! ?n")
    case (Some v)
    have "refillCell c r s = Inr s" by (simp add: refillCell_def rd Some)
    moreover have "fallen (generator s) (drawn s) (take ?n ?xs) @ [?xs ! ?n]
        = fallen (generator s) (drawn s) (take (Suc ?n) ?xs)"
      by (simp add: tk Some fallen_Some)
    moreover have "drawn s + empties (take ?n ?xs) = drawn s + empties (take (Suc ?n) ?xs)"
      by (simp add: tk Some)
    ultimately show ?thesis using assms(1) by simp
  next
    case None
    from findAbove_shaped [OF sh assms(2,3), of "r - 1"] assms(4,5)
    obtain j where j: "findAbove ?g c (r - 1) = Inr j" "- 1 \<le> j" "j \<le> r - 1"
      "0 \<le> j \<longrightarrow> ?xs ! nat j \<noteq> None"
      "\<forall>i. j < i \<and> i \<le> r - 1 \<longrightarrow> ?xs ! nat i = None" by auto
    show ?thesis
    proof (cases "0 \<le> j")
      case True
      with j(4) obtain v where v: "?xs ! nat j = Some v" by auto
      from True j(3) assms(5) have jr: "0 \<le> j" "j < ?h" "nat j < ?n" by simp_all
      let ?g1 = "put ?g r c (Some v)"
      let ?g2 = "put ?g1 j c None"
      let ?s' = "s\<lparr>board := ?g2\<rparr>"
      have sh1: "shaped ?h ?w ?g1" by (rule shaped_put [OF sh])
      have rdj: "readCell ?g j c = Inr (Some v)"
        using readCell_shaped [OF sh jr(1,2) assms(2,3)] column_nth [OF sh jr(1,2), of c] v by simp
      have w1: "writeCell ?g r c (Some v) = Inr ?g1" by (rule writeCell_shaped [OF sh assms(4,5,2,3)])
      have w2: "writeCell ?g1 j c None = Inr ?g2" by (rule writeCell_shaped [OF sh1 jr(1,2) assms(2,3)])
      have res: "refillCell c r s = Inr ?s'"
        using True by (simp add: refillCell_def rd None j(1) rdj w1 w2)
      have col: "column ?g2 c = ?xs[?n := Some v, nat j := None]"
        by (simp add: column_put_same [OF sh1 jr(1,2) assms(2,3)]
              column_put_same [OF sh assms(4,5,2,3)])
      have other: "\<forall>c'. 0 \<le> c' \<and> c' \<noteq> c \<longrightarrow> column ?g2 c' = column ?g c'"
        using assms(2) by (simp add: column_put_other)
      have t: "take ?n (column ?g2 c) = (take ?n ?xs)[nat j := None]"
        using jr(3) by (simp add: col take_update_swap list_update_beyond)
      have a: "column ?g2 c ! ?n = Some v"
      proof -
        have "nat j \<noteq> ?n" using jr(3) by linarith
        then have "(?xs[?n := Some v, nat j := None]) ! ?n = (?xs[?n := Some v]) ! ?n"
          by (rule nth_list_update_neq)
        also have "\<dots> = Some v" using n by simp
        finally show ?thesis unfolding col .
      qed
      have d: "drop (Suc ?n) (column ?g2 c) = drop (Suc ?n) ?xs"
      proof -
        have "nat j < Suc ?n" using jr(3) by linarith
        then have "drop (Suc ?n) (?xs[?n := Some v, nat j := None]) = drop (Suc ?n) (?xs[?n := Some v])"
          by (rule drop_update_cancel)
        also have "\<dots> = drop (Suc ?n) ?xs" by (rule drop_update_cancel) simp
        finally show ?thesis unfolding col .
      qed
      have jl: "nat j < length (take ?n ?xs)" using jr(3) n by simp
      have jv: "take ?n ?xs ! nat j = Some v" using jr(3) v by simp
      have above: "\<forall>i. nat j < i \<and> i < length (take ?n ?xs) \<longrightarrow> take ?n ?xs ! i = None"
      proof (intro allI impI)
        fix i assume i: "nat j < i \<and> i < length (take ?n ?xs)"
        then have "j < int i \<and> int i \<le> r - 1" using n by auto
        with j(5) have "?xs ! nat (int i) = None" by blast
        with i show "take ?n ?xs ! i = None" by simp
      qed
      have key: "fallen (generator s) (drawn s) (take ?n (column ?g2 c)) @ [column ?g2 c ! ?n]
                   = fallen (generator s) (drawn s) (take (Suc ?n) ?xs)"
        using fallen_pull [OF jl jv above] by (simp add: t a tk None)
      have em: "drawn s + empties (take ?n (column ?g2 c)) = drawn s + empties (take (Suc ?n) ?xs)"
        using empties_pull [OF jl jv] by (simp add: t tk None)
      have "rect ?s'" by (simp add: rect_shaped shaped_put [OF sh1])
      moreover have "frame s ?s'" by (simp add: frame_def)
      ultimately show ?thesis using res other d key em by simp
    next
      case False
      let ?v = "Some (generator s (drawn s))"
      let ?g1 = "put ?g r c ?v"
      let ?s' = "s\<lparr>drawn := drawn s + 1, board := ?g1\<rparr>"
      have w1: "writeCell ?g r c ?v = Inr ?g1" by (rule writeCell_shaped [OF sh assms(4,5,2,3)])
      have res: "refillCell c r s = Inr ?s'"
        using False by (simp add: refillCell_def rd None j(1) nextPiece_def w1)
      have col: "column ?g1 c = ?xs[?n := ?v]" by (rule column_put_same [OF sh assms(4,5,2,3)])
      have other: "\<forall>c'. 0 \<le> c' \<and> c' \<noteq> c \<longrightarrow> column ?g1 c' = column ?g c'"
        using assms(2) by (simp add: column_put_other)
      have t: "take ?n (column ?g1 c) = take ?n ?xs" by (simp add: col)
      have a: "column ?g1 c ! ?n = ?v" using n by (simp add: col)
      have d: "drop (Suc ?n) (column ?g1 c) = drop (Suc ?n) ?xs" by (simp add: col)
      have allN: "\<forall>i < length (take ?n ?xs). take ?n ?xs ! i = None"
      proof (intro allI impI)
        fix i assume i: "i < length (take ?n ?xs)"
        then have "j < int i \<and> int i \<le> r - 1" using n False by auto
        with j(5) have "?xs ! nat (int i) = None" by blast
        with i show "take ?n ?xs ! i = None" by simp
      qed
      have key: "fallen (generator s) (Suc (drawn s)) (take ?n (column ?g1 c)) @ [column ?g1 c ! ?n]
                   = fallen (generator s) (drawn s) (take (Suc ?n) ?xs)"
        using fallen_draw [OF allN] by (simp add: t a tk None)
      have em: "Suc (drawn s) + empties (take ?n (column ?g1 c)) = drawn s + empties (take (Suc ?n) ?xs)"
        by (simp add: t tk None)
      have "rect ?s'" by (simp add: rect_shaped shaped_put [OF sh])
      moreover have "frame s ?s'" by (simp add: frame_def)
      ultimately show ?thesis using res other d key em by simp
    qed
  qed
qed

section \<open>The loops of the refill\<close>

lemma upTo_Suc: "upTo (1 + int m) = upTo (int m) @ [int m]"
proof -
  have "nat (1 + int m) = Suc m" by simp
  then show ?thesis by (simp add: upTo_def)
qed

lemma upTo_0 [simp]: "upTo 0 = []"
  by (simp add: upTo_def)

lemma upTo_nat: "upTo (int (nat n)) = upTo n"
  by (simp add: upTo_def)

lemma set_upTo: "set (upTo n) = {i. 0 \<le> i \<and> i < n}"
proof -
  have "i \<in> int ` {0..<nat n} \<longleftrightarrow> 0 \<le> i \<and> i < n" for i
  proof
    assume "i \<in> int ` {0..<nat n}"
    then show "0 \<le> i \<and> i < n" by auto
  next
    assume "0 \<le> i \<and> i < n"
    then have "nat i \<in> {0..<nat n}" "i = int (nat i)" by auto
    then show "i \<in> int ` {0..<nat n}" by (rule rev_image_eqI)
  qed
  then show ?thesis by (auto simp: upTo_def)
qed

lemma forEachE_append:
  "forEachE (xs @ ys) body s = bindE (forEachE xs body s) (forEachE ys body)"
proof (induction xs arbitrary: s)
  case Nil
  then show ?case by simp
next
  case (Cons x xs)
  then show ?case by (cases "body x s") simp_all
qed

lemma rowLoop:
  "m \<le> nat (height s) \<Longrightarrow> rect s \<Longrightarrow> 0 \<le> c \<Longrightarrow> c < width s \<Longrightarrow>
   \<exists>s'. forEachE (rev (upTo (int m)))
          (\<lambda>r (s1, newColumn).
             bindE (refillCell c r s1) (\<lambda>s2.
             bindE (readCell (board s2) r c) (\<lambda>v. Inr (s2, v # newColumn))))
          (s, nc)
        = Inr (s', fallen (generator s) (drawn s) (take m (column (board s) c)) @ nc) \<and>
      rect s' \<and> frame s s' \<and>
      (\<forall>c'. 0 \<le> c' \<and> c' \<noteq> c \<longrightarrow> column (board s') c' = column (board s) c') \<and>
      column (board s') c
        = fallen (generator s) (drawn s) (take m (column (board s) c)) @ drop m (column (board s) c) \<and>
      drawn s' = drawn s + empties (take m (column (board s) c))"
proof (induction m arbitrary: s nc)
  case 0
  then show ?case by (simp add: fallen_def fresh_def)
next
  case (Suc m)
  let ?xs = "column (board s) c"
  let ?body = "\<lambda>r (s1, newColumn).
             bindE (refillCell c r s1) (\<lambda>s2.
             bindE (readCell (board s2) r c) (\<lambda>v. Inr (s2, v # newColumn)))"
  from Suc.prems have r: "0 \<le> int m" "int m < height s" by simp_all
  from refillCell_rect [OF Suc.prems(2,3,4) r]
  obtain s2 where s2: "refillCell c (int m) s = Inr s2" "rect s2" "frame s s2"
    "\<forall>c'. 0 \<le> c' \<and> c' \<noteq> c \<longrightarrow> column (board s2) c' = column (board s) c'"
    "drop (Suc m) (column (board s2) c) = drop (Suc m) ?xs"
    "fallen (generator s) (drawn s2) (take m (column (board s2) c)) @ [column (board s2) c ! m]
        = fallen (generator s) (drawn s) (take (Suc m) ?xs)"
    "drawn s2 + empties (take m (column (board s2) c)) = drawn s + empties (take (Suc m) ?xs)"
    by auto
  let ?ys = "column (board s2) c"
  from s2(3) have f2: "width s2 = width s" "height s2 = height s" "generator s2 = generator s"
    by (simp_all add: frame_def)
  from s2(2) have sh2: "shaped (height s) (width s) (board s2)" by (simp add: rect_shaped f2)
  have len2: "length ?ys = nat (height s)" using sh2 by (simp add: shaped_def)
  have rd: "readCell (board s2) (int m) c = Inr (?ys ! m)"
    using readCell_shaped [OF sh2 r Suc.prems(3,4)] column_nth [OF sh2 r, of c] by simp
  have m: "m \<le> nat (height s2)" using Suc.prems(1) f2 by simp
  from Suc.IH [OF m s2(2), of "?ys ! m # nc"] Suc.prems(3,4) f2
  obtain s' where s': "forEachE (rev (upTo (int m))) ?body (s2, ?ys ! m # nc)
        = Inr (s', fallen (generator s) (drawn s2) (take m ?ys) @ ?ys ! m # nc)"
      "rect s'" "frame s2 s'"
      "\<forall>c'. 0 \<le> c' \<and> c' \<noteq> c \<longrightarrow> column (board s') c' = column (board s2) c'"
      "column (board s') c = fallen (generator s) (drawn s2) (take m ?ys) @ drop m ?ys"
      "drawn s' = drawn s2 + empties (take m ?ys)"
    by auto
  have dm: "drop m ?ys = ?ys ! m # drop (Suc m) ?xs"
    using Cons_nth_drop_Suc [of m ?ys] len2 Suc.prems(1) s2(5) by simp
  have step: "forEachE (rev (upTo (int (Suc m)))) ?body (s, nc)
                = forEachE (rev (upTo (int m))) ?body (s2, ?ys ! m # nc)"
    by (simp add: upTo_Suc s2(1) rd)
  have e1: "fallen (generator s) (drawn s2) (take m ?ys) @ ?ys ! m # nc
              = fallen (generator s) (drawn s) (take (Suc m) ?xs) @ nc"
    using s2(6) by (metis append_Cons append_Nil append_assoc)
  have "column (board s') c = (fallen (generator s) (drawn s2) (take m ?ys) @ [?ys ! m]) @ drop (Suc m) ?xs"
    by (simp add: s'(5) dm)
  then have e2: "column (board s') c = fallen (generator s) (drawn s) (take (Suc m) ?xs) @ drop (Suc m) ?xs"
    by (simp only: s2(6))
  have e3: "drawn s' = drawn s + empties (take (Suc m) ?xs)" using s'(6) s2(7) by simp
  have e4: "\<forall>c'. 0 \<le> c' \<and> c' \<noteq> c \<longrightarrow> column (board s') c' = column (board s) c'"
    using s'(4) s2(4) by simp
  from step s'(1) e1 have "forEachE (rev (upTo (int (Suc m)))) ?body (s, nc)
      = Inr (s', fallen (generator s) (drawn s) (take (Suc m) ?xs) @ nc)" by simp
  with s'(2) frame_trans [OF s2(3) s'(3)] e2 e3 e4 show ?case by blast
qed

lemma put_same:
  "put g r c (cell g r c) = g"
  by (simp add: put_def cell_def)

lemma copyBack:
  "rect s \<Longrightarrow> 0 \<le> c \<Longrightarrow> c < width s \<Longrightarrow> \<forall>r \<in> set rs. 0 \<le> r \<and> r < height s \<Longrightarrow>
   forEachE rs
     (\<lambda>r s2. bindE (writeCell (board s2) r c (elemAt (column (board s) c) r)) (\<lambda>g. Inr (s2\<lparr>board := g\<rparr>)))
     s = Inr s"
proof (induction rs)
  case Nil
  then show ?case by simp
next
  case (Cons r rs)
  from Cons.prems have sh: "shaped (height s) (width s) (board s)" by (simp add: rect_shaped)
  from Cons.prems have r: "0 \<le> r" "r < height s" by simp_all
  have "elemAt (column (board s) c) r = cell (board s) r c"
    using column_nth [OF sh r, of c] sh r by (simp add: elemAt_def shaped_def)
  moreover have "writeCell (board s) r c (cell (board s) r c) = Inr (board s)"
    using writeCell_shaped [OF sh r Cons.prems(2,3)] by (simp add: put_same)
  ultimately show ?case using Cons by simp
qed

lemma refillColumn_rect:
  assumes "rect s" "0 \<le> c" "c < width s"
  shows "\<exists>s'. refillColumn c s = Inr s' \<and> rect s' \<and> frame s s' \<and>
      (\<forall>c'. 0 \<le> c' \<and> c' \<noteq> c \<longrightarrow> column (board s') c' = column (board s) c') \<and>
      column (board s') c = fallen (generator s) (drawn s) (column (board s) c) \<and>
      drawn s' = drawn s + empties (column (board s) c)"
proof -
  let ?xs = "column (board s) c"
  from assms(1) have len: "length ?xs = nat (height s)" by (simp add: rect_def)
  have tk: "take (nat (height s)) ?xs = ?xs" "drop (nat (height s)) ?xs = []" using len by simp_all
  from rowLoop [of "nat (height s)" s c "[]", OF _ assms, unfolded upTo_nat tk]
  obtain s' where s': "forEachE (rev (upTo (height s)))
          (\<lambda>r (s1, newColumn).
             bindE (refillCell c r s1) (\<lambda>s2.
             bindE (readCell (board s2) r c) (\<lambda>v. Inr (s2, v # newColumn))))
          (s, [])
        = Inr (s', fallen (generator s) (drawn s) ?xs)"
      "rect s'" "frame s s'"
      "\<forall>c'. 0 \<le> c' \<and> c' \<noteq> c \<longrightarrow> column (board s') c' = column (board s) c'"
      "column (board s') c = fallen (generator s) (drawn s) ?xs"
      "drawn s' = drawn s + empties ?xs"
    by auto
  from s'(3) have f: "width s' = width s" "height s' = height s" by (simp_all add: frame_def)
  have "forEachE (upTo (height s'))
     (\<lambda>r s2. bindE (writeCell (board s2) r c (elemAt (column (board s') c) r)) (\<lambda>g. Inr (s2\<lparr>board := g\<rparr>)))
     s' = Inr s'"
    using s'(2) assms(2,3) f by (intro copyBack) (simp_all add: set_upTo)
  then have "refillColumn c s = Inr s'"
    by (simp add: refillColumn_def s'(1) s'(5))
  with s' show ?thesis by blast
qed

lemma refillColumns_upto:
  "n \<le> nat (width s) \<Longrightarrow> rect s \<Longrightarrow>
   \<exists>s'. forEachE (upTo (int n)) refillColumn s = Inr s' \<and> rect s' \<and> frame s s' \<and>
      drawn s' = drawnBefore s (int n) \<and>
      (\<forall>c. 0 \<le> c \<and> c < int n \<longrightarrow>
         column (board s') c = fallen (generator s) (drawnBefore s c) (column (board s) c)) \<and>
      (\<forall>c. int n \<le> c \<longrightarrow> column (board s') c = column (board s) c)"
proof (induction n)
  case 0
  then show ?case by (auto simp: drawnBefore_def)
next
  case (Suc n)
  then obtain s1 where s1: "forEachE (upTo (int n)) refillColumn s = Inr s1" "rect s1" "frame s s1"
      "drawn s1 = drawnBefore s (int n)"
      "\<forall>c. 0 \<le> c \<and> c < int n \<longrightarrow>
         column (board s1) c = fallen (generator s) (drawnBefore s c) (column (board s) c)"
      "\<forall>c. int n \<le> c \<longrightarrow> column (board s1) c = column (board s) c"
    by auto
  from s1(3) have f: "width s1 = width s" "generator s1 = generator s" by (simp_all add: frame_def)
  have c: "0 \<le> int n" "int n < width s1" using Suc.prems f by simp_all
  from refillColumn_rect [OF s1(2) c]
  obtain s2 where s2: "refillColumn (int n) s1 = Inr s2" "rect s2" "frame s1 s2"
      "\<forall>c'. 0 \<le> c' \<and> c' \<noteq> int n \<longrightarrow> column (board s2) c' = column (board s1) c'"
      "column (board s2) (int n) = fallen (generator s1) (drawn s1) (column (board s1) (int n))"
      "drawn s2 = drawn s1 + empties (column (board s1) (int n))"
    by auto
  have run: "forEachE (upTo (int (Suc n))) refillColumn s = Inr s2"
    by (simp add: upTo_Suc forEachE_append s1(1) s2(1))
  have same: "column (board s1) (int n) = column (board s) (int n)" using s1(6) by simp
  have d: "drawn s2 = drawnBefore s (int (Suc n))"
    by (simp add: s2(6) s1(4) same drawnBefore_def upTo_Suc)
  have proc: "\<forall>c. 0 \<le> c \<and> c < int (Suc n) \<longrightarrow>
         column (board s2) c = fallen (generator s) (drawnBefore s c) (column (board s) c)"
  proof (intro allI impI)
    fix c assume c: "0 \<le> c \<and> c < int (Suc n)"
    show "column (board s2) c = fallen (generator s) (drawnBefore s c) (column (board s) c)"
    proof (cases "c = int n")
      case True
      then show ?thesis by (simp add: s2(5) f s1(4) same)
    next
      case False
      with c have "c < int n" by simp
      with c False s2(4) s1(5) show ?thesis by simp
    qed
  qed
  have rest: "\<forall>c. int (Suc n) \<le> c \<longrightarrow> column (board s2) c = column (board s) c"
    using s2(4) s1(6) by simp
  from run s2(2) frame_trans [OF s1(3) s2(3)] d proc rest show ?case by blast
qed

lemma refillColumns_rect:
  assumes "rect s"
  shows "\<exists>s'. refillColumns s = Inr s' \<and> rect s' \<and> frame s s' \<and>
      drawn s' = drawnBefore s (width s) \<and>
      (\<forall>c. 0 \<le> c \<and> c < width s \<longrightarrow>
         column (board s') c = fallen (generator s) (drawnBefore s c) (column (board s) c))"
proof -
  from refillColumns_upto [of "nat (width s)" s, OF _ assms]
  obtain s' where s': "forEachE (upTo (int (nat (width s)))) refillColumn s = Inr s'"
     "rect s'" "frame s s'" "drawn s' = drawnBefore s (int (nat (width s)))"
      "\<forall>c. 0 \<le> c \<and> c < int (nat (width s)) \<longrightarrow>
         column (board s') c = fallen (generator s) (drawnBefore s c) (column (board s) c)"
    by auto
  have "drawnBefore s (int (nat (width s))) = drawnBefore s (width s)"
    unfolding drawnBefore_def upTo_nat ..
  moreover have "c < width s \<Longrightarrow> c < int (nat (width s))" for c by simp
  ultimately show ?thesis using s' unfolding refillColumns_def upTo_nat by auto
qed

section \<open>Clearing and one pass\<close>

lemma set_cells: "set (cells h w) = {(r, c). 0 \<le> r \<and> r < h \<and> 0 \<le> c \<and> c < w}"
  by (auto simp: cells_def set_upTo)

lemma firstH_Some:
  assumes "firstH s = Some (r, c)"
  shows "0 \<le> r" "r < height s" "0 \<le> c" "c + 2 < width s" "hrun s (r, c)"
proof -
  from assms have "(r, c) \<in> set (cells (height s) (width s - 2))" and "hrun s (r, c)"
    by (auto simp: firstH_def find_Some_iff)
  then show "0 \<le> r" "r < height s" "0 \<le> c" "c + 2 < width s" "hrun s (r, c)"
    by (simp_all add: set_cells)
qed

lemma firstV_Some:
  assumes "firstV s = Some (r, c)"
  shows "0 \<le> r" "r + 2 < height s" "0 \<le> c" "c < width s" "vrun s (r, c)"
proof -
  from assms have "(r, c) \<in> set (cells (height s - 2) (width s))" and "vrun s (r, c)"
    by (auto simp: firstV_def find_Some_iff)
  then show "0 \<le> r" "r + 2 < height s" "0 \<le> c" "c < width s" "vrun s (r, c)"
    by (simp_all add: set_cells)
qed

lemma firstH_None:
  "firstH s = None \<longleftrightarrow> (\<forall>r c. 0 \<le> r \<and> r < height s \<and> 0 \<le> c \<and> c + 2 < width s \<longrightarrow> \<not> hrun s (r, c))"
  by (auto simp: firstH_def find_None_iff set_cells)

lemma firstV_None:
  "firstV s = None \<longleftrightarrow> (\<forall>r c. 0 \<le> r \<and> r + 2 < height s \<and> 0 \<le> c \<and> c < width s \<longrightarrow> \<not> vrun s (r, c))"
  by (auto simp: firstV_def find_None_iff set_cells)

lemma valid_newMatches: "list_all (validMatch s) (newMatches s)"
proof -
  have "validMatch s (hmatch s p)" if "firstH s = Some p" for p
  proof -
    obtain r c where p: "p = (r, c)" by (cases p)
    from firstH_Some [OF that [unfolded p]] show ?thesis
      by (simp add: p validMatch_def hmatch_def inGrid_def)
  qed
  moreover have "validMatch s (vmatch s p)" if "firstV s = Some p" for p
  proof -
    obtain r c where p: "p = (r, c)" by (cases p)
    from firstV_Some [OF that [unfolded p]] show ?thesis
      by (simp add: p validMatch_def vmatch_def inGrid_def)
  qed
  ultimately show ?thesis by (simp add: newMatches_def split: option.splits)
qed

lemma scanned_fields:
  "board (scanned s) = board s" "width (scanned s) = width s" "height (scanned s) = height s"
  "listeners (scanned s) = listeners s" "generator (scanned s) = generator s"
  "drawn (scanned s) = drawn s"
  "matches (scanned s) = matches s @ newMatches s"
  "events (scanned s) = events s @ map MatchEvent (newMatches s)"
  "listeners s = [] \<Longrightarrow> delivered (scanned s) = delivered s"
  by (simp_all add: scanned_def noted_def alert_def newMatches_def Let_def split: option.splits)

lemma scanned_quiet: "\<not> hasMatch s \<Longrightarrow> scanned s = s"
  by (cases "firstH s"; cases "firstV s") (simp_all add: hasMatch_def scanned_def)

lemma inGrid_scanned: "inGrid (scanned s) = inGrid s"
  by (rule ext) (simp add: inGrid_def scanned_fields)

lemma validMatch_scanned: "validMatch (scanned s) = validMatch s"
  by (rule ext) (simp add: validMatch_def inGrid_scanned)

lemma rect_scanned: "rect (scanned s) = rect s"
  by (simp add: rect_def scanned_fields)

lemma clearMatch_shaped:
  assumes "shaped (height s) (width s) g" "validMatch s m"
  shows "\<exists>g'. clearMatch m g = Inr g' \<and> shaped (height s) (width s) g'"
proof -
  from assms(2) have "length (positions m) = Suc (Suc (Suc 0))"
    by (simp add: validMatch_def)
  then obtain p1 p2 p3 where p: "positions m = [p1, p2, p3]"
    by (auto simp: length_Suc_conv)
  from assms(2) have i: "inGrid s p1" "inGrid s p2" "inGrid s p3"
    by (simp_all add: validMatch_def p)
  let ?g1 = "put g (row p1) (col p1) None"
  let ?g2 = "put ?g1 (row p2) (col p2) None"
  let ?g3 = "put ?g2 (row p3) (col p3) None"
  have s1: "shaped (height s) (width s) ?g1" by (rule shaped_put [OF assms(1)])
  have s2: "shaped (height s) (width s) ?g2" by (rule shaped_put [OF s1])
  have s3: "shaped (height s) (width s) ?g3" by (rule shaped_put [OF s2])
  have "writeCell g (row p1) (col p1) None = Inr ?g1"
    using i(1) by (intro writeCell_shaped [OF assms(1)]) (simp_all add: inGrid_def)
  moreover have "writeCell ?g1 (row p2) (col p2) None = Inr ?g2"
    using i(2) by (intro writeCell_shaped [OF s1]) (simp_all add: inGrid_def)
  moreover have "writeCell ?g2 (row p3) (col p3) None = Inr ?g3"
    using i(3) by (intro writeCell_shaped [OF s2]) (simp_all add: inGrid_def)
  ultimately have "clearMatch m g = Inr ?g3" by (simp add: clearMatch_def p)
  with s3 show ?thesis by blast
qed

lemma clearAll_shaped:
  "shaped (height s) (width s) g \<Longrightarrow> list_all (validMatch s) ms \<Longrightarrow>
   \<exists>g'. forEachE ms clearMatch g = Inr g' \<and> shaped (height s) (width s) g'"
proof (induction ms arbitrary: g)
  case Nil
  then show ?case by simp
next
  case (Cons m ms)
  from clearMatch_shaped [of s g m] Cons.prems
  obtain g1 where g1: "clearMatch m g = Inr g1" "shaped (height s) (width s) g1" by auto
  from Cons.IH [OF g1(2)] Cons.prems obtain g' where
    "forEachE ms clearMatch g1 = Inr g'" "shaped (height s) (width s) g'" by auto
  with g1 show ?case by simp
qed

lemma settle_rect:
  assumes "rect s" "list_all (validMatch s) (matches s)"
  shows "\<exists>s'. settle s = Inr s' \<and> rect s' \<and> matches s' = [] \<and>
           width s' = width s \<and> height s' = height s \<and> listeners s' = listeners s \<and>
           generator s' = generator s \<and> events s' = events s @ [RefillEvent] \<and>
           (listeners s = [] \<longrightarrow> delivered s' = delivered s)"
proof -
  from assms(1) have "shaped (height s) (width s) (board s)" by (simp add: rect_shaped)
  from clearAll_shaped [OF this assms(2)]
  obtain g where g: "forEachE (matches s) clearMatch (board s) = Inr g"
    "shaped (height s) (width s) g" by auto
  let ?s1 = "alert RefillEvent (s\<lparr>board := g, matches := []\<rparr>)"
  have c: "clearMatches s = Inr ?s1" by (simp add: clearMatches_def g(1))
  have r1: "rect ?s1" using g(2) by (simp add: rect_shaped alert_def)
  from refillColumns_rect [OF r1] obtain s' where
    s': "refillColumns ?s1 = Inr s'" "rect s'" "frame ?s1 s'" by auto
  have "settle s = Inr s'" by (simp add: settle_def c s'(1))
  with s'(2,3) show ?thesis by (auto simp: frame_def alert_def)
qed

lemma pass_rect:
  assumes "rect s" "matches s = []"
  shows "\<exists>s'. settle (scanned s) = Inr s' \<and> rect s' \<and> matches s' = [] \<and>
           width s' = width s \<and> height s' = height s \<and> listeners s' = listeners s \<and>
           generator s' = generator s \<and>
           events s' = events s @ map MatchEvent (newMatches s) @ [RefillEvent] \<and>
           (listeners s = [] \<longrightarrow> delivered s' = delivered s)"
proof -
  have "rect (scanned s)" using assms(1) by (simp add: rect_scanned)
  moreover have "list_all (validMatch (scanned s)) (matches (scanned s))"
    using valid_newMatches [of s] assms(2)
    by (simp add: scanned_fields validMatch_scanned)
  ultimately show ?thesis
    using settle_rect [of "scanned s"] by (auto simp: scanned_fields)
qed

section \<open>The loop and its passes\<close>

text \<open>
  The loop in the words of the source: scan, and while the scan finds a match call
  \<open>doMatch\<close>, which ends in \<open>refillBoard\<close> and its own run of the loop.
\<close>

lemma resolve_unfold:
  "resolve d s =
     (case findMatches s of
        Inl e \<Rightarrow> Some (Inl e)
      | Inr (found, s1) \<Rightarrow> if found then bindR (doMatch d s1) (resolve d) else Some (Inr s1))"
proof (cases "findMatches s")
  case (Inl e)
  then show ?thesis by (subst resolve.simps) simp
next
  case (Inr p)
  obtain found s1 where p: "p = (found, s1)" by (cases p)
  show ?thesis
  proof (cases found)
    case False
    with Inr p show ?thesis by (subst resolve.simps) simp
  next
    case True
    note found = this
    show ?thesis
    proof (cases d)
      case 0
      with Inr p found show ?thesis by (subst resolve.simps) (simp add: doMatch_def)
    next
      case (Suc inner)
      show ?thesis
      proof (cases "settle s1")
        case (Inl e)
        then have "doMatch d s1 = Some (Inl e)"
          by (cases "clearMatches s1") (simp_all add: doMatch_def refillBoard_def settle_def Suc)
        with Inl \<open>findMatches s = Inr p\<close> p found Suc show ?thesis
          by (subst resolve.simps) simp
      next
        case (Inr s2)
        then have dm: "doMatch d s1 = resolve inner s2"
          by (cases "clearMatches s1") (simp_all add: doMatch_def refillBoard_def settle_def Suc)
        have "Option.bind (resolve inner s2)
                (\<lambda>res. case res of Inl e \<Rightarrow> Some (Inl e) | Inr s3 \<Rightarrow> resolve (Suc inner) s3)
              = bindR (resolve inner s2) (resolve (Suc inner))"
        proof (cases "resolve inner s2")
          case None
          then show ?thesis by simp
        next
          case (Some res)
          then show ?thesis by (cases res) simp_all
        qed
        with Inr \<open>findMatches s = Inr p\<close> p found dm Suc show ?thesis
          by (subst resolve.simps) simp
      qed
    qed
  qed
qed

lemma cascade_inv:
  "rect s \<Longrightarrow> matches s = [] \<Longrightarrow>
   \<exists>fin s'. cascade n s = Inr (fin, s') \<and> rect s' \<and> matches s' = [] \<and>
      width s' = width s \<and> height s' = height s \<and> listeners s' = listeners s \<and>
      generator s' = generator s \<and> (listeners s = [] \<longrightarrow> delivered s' = delivered s) \<and>
      (fin \<longrightarrow> \<not> hasMatch s')"
proof (induction n arbitrary: s)
  case 0
  then show ?case by auto
next
  case (Suc n)
  show ?case
  proof (cases "hasMatch s")
    case False
    then show ?thesis using Suc.prems by (auto simp: findMatches_rect scanned_quiet)
  next
    case True
    from pass_rect [OF Suc.prems] obtain s2 where s2: "settle (scanned s) = Inr s2" "rect s2"
      "matches s2 = []" "width s2 = width s" "height s2 = height s" "listeners s2 = listeners s"
      "generator s2 = generator s" "listeners s = [] \<longrightarrow> delivered s2 = delivered s" by auto
    have "cascade (Suc n) s = cascade n s2"
      using True Suc.prems by (simp add: findMatches_rect s2(1))
    with Suc.IH [OF s2(2,3)] s2 show ?thesis by auto
  qed
qed

lemma resolve_quiet: "rect s \<Longrightarrow> \<not> hasMatch s \<Longrightarrow> resolve d s = Some (Inr s)"
  by (subst resolve.simps) (simp add: findMatches_rect scanned_quiet)

lemma cascade_more:
  "cascade n s = Inr (True, s') \<Longrightarrow> cascade (n + k) s = Inr (True, s')"
proof (induction n arbitrary: s)
  case 0
  then show ?case by simp
next
  case (Suc n)
  show ?case
  proof (cases "findMatches s")
    case (Inl e)
    with Suc.prems show ?thesis by simp
  next
    case (Inr p)
    obtain found s1 where p: "p = (found, s1)" by (cases p)
    show ?thesis
    proof (cases found)
      case False
      with Suc.prems Inr p show ?thesis by simp
    next
      case True
      show ?thesis
      proof (cases "settle s1")
        case (Inl e)
        with Suc.prems Inr p True show ?thesis by simp
      next
        case s2: (Inr s2)
        with Suc.prems Inr p True have "cascade n s2 = Inr (True, s')" by simp
        from Suc.IH [OF this] Inr p True s2 show ?thesis by simp
      qed
    qed
  qed
qed

text \<open>
  On a rectangular board with no recorded match the loop always ends: with the board
  of the first scan that finds no match, if the stack has room for the passes before
  it, and with a RangeError otherwise.
\<close>

lemma resolve_outcome:
  "rect s \<Longrightarrow> matches s = [] \<Longrightarrow> resolve d s = Some (outcome (cascade (Suc d) s))"
proof (induction d arbitrary: s)
  case 0
  show ?case
  proof (cases "hasMatch s")
    case False
    with 0 show ?thesis
      by (subst resolve.simps) (simp add: findMatches_rect scanned_quiet outcome_def)
  next
    case True
    from pass_rect [OF 0] obtain s2 where "settle (scanned s) = Inr s2" by auto
    with True 0 show ?thesis
      by (subst resolve.simps) (simp add: findMatches_rect outcome_def)
  qed
next
  case (Suc d)
  show ?case
  proof (cases "hasMatch s")
    case False
    with Suc.prems show ?thesis
      by (subst resolve.simps) (simp add: findMatches_rect scanned_quiet outcome_def)
  next
    case True
    from pass_rect [OF Suc.prems] obtain s2 where s2: "settle (scanned s) = Inr s2" "rect s2"
      "matches s2 = []" by auto
    have c: "cascade (Suc (Suc d)) s = cascade (Suc d) s2"
      using True Suc.prems by (simp add: findMatches_rect s2(1))
    from cascade_inv [OF s2(2,3), of "Suc d"] obtain fin s' where
      f: "cascade (Suc d) s2 = Inr (fin, s')" "rect s'" "fin \<longrightarrow> \<not> hasMatch s'" by auto
    from Suc.IH [OF s2(2,3)] have r2: "resolve d s2 = Some (outcome (Inr (fin, s')))"
      unfolding f(1) .
    from c have c': "cascade (Suc (Suc d)) s = Inr (fin, s')" unfolding f(1) .
    have st: "resolve (Suc d) s =
        Option.bind (resolve d s2)
          (\<lambda>res. case res of Inl e \<Rightarrow> Some (Inl e) | Inr s3 \<Rightarrow> resolve (Suc d) s3)"
      using True Suc.prems(1) by (subst resolve.simps) (simp add: findMatches_rect s2(1))
    show ?thesis
    proof (cases fin)
      case False
      then show ?thesis unfolding c' st r2 by (simp add: outcome_def)
    next
      case True
      with f have "resolve (Suc d) s' = Some (Inr s')" by (simp add: resolve_quiet)
      with True show ?thesis unfolding c' st r2 by (simp add: outcome_def)
    qed
  qed
qed

lemma cascade_resolve:
  "rect s \<Longrightarrow> matches s = [] \<Longrightarrow> cascade (Suc d) s = Inr (True, s') \<Longrightarrow>
   resolve d s = Some (Inr s')"
  by (simp add: resolve_outcome outcome_def)

lemma resolve_cascade:
  assumes "rect s" "matches s = []" "resolve d s = Some (Inr s')"
  shows "cascade (Suc d) s = Inr (True, s')"
proof -
  from cascade_inv [OF assms(1,2), of "Suc d"] obtain fin t where
    f: "cascade (Suc d) s = Inr (fin, t)" by auto
  from assms(3) resolve_outcome [OF assms(1,2), of d] f show ?thesis
    by (cases fin) (simp_all add: outcome_def)
qed

lemma resolve_overflow:
  assumes "rect s" "matches s = []"
  shows "resolve d s = Some (Inl RangeError) \<longleftrightarrow> (\<exists>t. cascade (Suc d) s = Inr (False, t))"
proof -
  from cascade_inv [OF assms, of "Suc d"] obtain fin t where
    f: "cascade (Suc d) s = Inr (fin, t)" by auto
  from resolve_outcome [OF assms, of d] f show ?thesis
    by (cases fin) (simp_all add: outcome_def)
qed

lemma fillRow_eq:
  "fillRow n s rw =
     (rw @ map (\<lambda>i. Some (generator s (drawn s + i))) [0..<n], s\<lparr>drawn := drawn s + n\<rparr>)"
proof (induction n arbitrary: s rw)
  case 0
  then show ?case by simp
next
  case (Suc n)
  have "map (\<lambda>i. Some (generator s (drawn s + i))) [0..<Suc n]
          = Some (generator s (drawn s)) # map (\<lambda>i. Some (generator s (drawn s + 1 + i))) [0..<n]"
    by (simp add: upt_rec [of 0 "Suc n"] map_Suc_upt [symmetric] del: upt_Suc)
  then show ?case by (simp add: Suc.IH nextPiece_def)
qed

lemma fillRows_eq:
  "\<exists>rows d. fillRows n s = s\<lparr>board := board s @ rows, drawn := d\<rparr> \<and> length rows = n \<and>
      list_all (\<lambda>rw. length rw = nat (width s)) rows"
proof (induction n arbitrary: s)
  case 0
  have "fillRows 0 s = s\<lparr>board := board s @ [], drawn := drawn s\<rparr> \<and> length ([] :: 'a option list list) = 0 \<and>
      list_all (\<lambda>rw. length rw = nat (width s)) []" by simp
  then show ?case by blast
next
  case (Suc n)
  let ?rw = "map (\<lambda>i. Some (generator s (drawn s + i))) [0..<nat (width s)]"
  let ?s1 = "s\<lparr>drawn := drawn s + nat (width s), board := board s @ [?rw]\<rparr>"
  have st: "fillRows (Suc n) s = fillRows n ?s1" by (simp add: fillRow_eq)
  from Suc.IH [of ?s1] obtain rows d where
    r: "fillRows n ?s1 = ?s1\<lparr>board := board ?s1 @ rows, drawn := d\<rparr>" "length rows = n"
      "list_all (\<lambda>rw. length rw = nat (width ?s1)) rows" by blast
  have "fillRows (Suc n) s = s\<lparr>board := board s @ (?rw # rows), drawn := d\<rparr>"
    unfolding st r(1) by simp
  moreover have "length (?rw # rows) = Suc n" using r(2) by simp
  moreover have "list_all (\<lambda>rw. length rw = nat (width s)) (?rw # rows)" using r(3) by simp
  ultimately show ?case by blast
qed

lemma filled_fields:
  "rect (filled gen w h)" "matches (filled gen w h) = []" "listeners (filled gen w h) = []"
  "delivered (filled gen w h) = []" "width (filled gen w h) = w" "height (filled gen w h) = h"
  "events (filled gen w h) = []" "generator (filled gen w h) = gen"
proof -
  let ?s0 = "\<lparr>board = [], listeners = [], generator = gen, drawn = 0, matches = [],
        width = w, height = h, events = [], delivered = []\<rparr>"
  from fillRows_eq [of "nat h" ?s0] obtain rows d where
    r: "fillRows (nat h) ?s0 = ?s0\<lparr>board := board ?s0 @ rows, drawn := d\<rparr>" "length rows = nat h"
      "list_all (\<lambda>rw. length rw = nat (width ?s0)) rows" by blast
  then show "rect (filled gen w h)" "matches (filled gen w h) = []" "listeners (filled gen w h) = []"
  "delivered (filled gen w h) = []" "width (filled gen w h) = w" "height (filled gen w h) = h"
  "events (filled gen w h) = []" "generator (filled gen w h) = gen"
    by (simp_all add: filled_def rect_def)
qed

section \<open>Evaluating the code on the sample boards\<close>

lemma fill_numeral:
  "fillRows (numeral k) s =
     (let (rw, s1) = fillRow (nat (width s)) s []
      in fillRows (pred_numeral k) (s1\<lparr>board := board s1 @ [rw]\<rparr>))"
  "fillRow (numeral k) s rw =
     (let (x, s1) = nextPiece s in fillRow (pred_numeral k) s1 (rw @ [Some x]))"
  by (simp_all add: numeral_eq_Suc)

lemmas run_defs = findMatches_def cells_def upTo_def findColumnMatch_def findRowMatch_def
  piece_def readCell_def rowAt_def writeCell_def Let_def nextPiece_def SequenceGenerator_def
  alert_def settle_def clearMatches_def clearMatch_def refillColumns_def refillColumn_def
  refillCell_def findAbove.simps elemAt_def

lemmas scan_defs = hasMatch_def firstH_def firstV_def cells_def upTo_def hrun_def vrun_def
  hmatch_def vmatch_def look_def inGrid_def cell_def

lemma filled_init: "filled (SequenceGenerator ''ABA'') 4 3 = initBoard"
  by (simp add: filled_def fill_numeral nextPiece_def SequenceGenerator_def initBoard_def)

lemma quiet_initBoard: "\<not> hasMatch initBoard"
  by (simp add: scan_defs initBoard_def upt_rec)

lemma construct_initBoard: "construct d (SequenceGenerator ''ABA'') 4 3 = Some (Inr initBoard)"
  unfolding construct_def filled_init by (rule resolve_quiet [OF rect_initBoard quiet_initBoard])

lemma filled_row:
  "filled (SequenceGenerator ''AAAB'') 3 1 =
     \<lparr>board = [[Some ''A'', Some ''A'', Some ''A'']],
      listeners = [], generator = SequenceGenerator ''AAAB'', drawn = 3, matches = [],
      width = 3, height = 1, events = [], delivered = []\<rparr>"
  by (simp add: filled_def fill_numeral nextPiece_def SequenceGenerator_def)

lemma cascade_row:
  "cascade (Suc (Suc 0)) (filled (SequenceGenerator ''AAAB'') 3 1) = Inr (True, rowBoard)"
  unfolding filled_row by (simp add: run_defs rowBoard_def upt_rec)

lemma cascade_row_short:
  "cascade (Suc 0) (filled (SequenceGenerator ''AAAB'') 3 1) = Inr (False, rowBoard)"
  unfolding filled_row by (simp add: run_defs rowBoard_def upt_rec)

lemma construct_rowBoard:
  "construct (Suc d) (SequenceGenerator ''AAAB'') 3 1 = Some (Inr rowBoard)"
proof -
  from cascade_more [OF cascade_row, of d]
  have "cascade (Suc (Suc d)) (filled (SequenceGenerator ''AAAB'') 3 1) = Inr (True, rowBoard)"
    by simp
  from cascade_resolve [OF filled_fields(1,2) this] show ?thesis by (simp add: construct_def)
qed

lemma canMove_init:
  "canMove initBoard \<lparr>row = 0, col = 0\<rparr> \<lparr>row = 0, col = 1\<rparr> = Inr (True, initBoard)"
proof -
  have "legal initBoard \<lparr>row = 0, col = 0\<rparr> \<lparr>row = 0, col = 1\<rparr>"
    by (simp add: legal_def look_def inGrid_def cell_def swapped_def put_def hwin_def around_def
          initBoard_def)
  then show ?thesis using canMove_rect [OF rect_initBoard] by simp
qed

lemma change_init:
  "change initBoard \<lparr>row = 0, col = 0\<rparr> \<lparr>row = 0, col = 1\<rparr> = Inr swappedBoard"
  by (simp add: change_def piece_def readCell_def writeCell_def rowAt_def initBoard_def
        swappedBoard_def)

lemma cascade_swapped: "cascade (Suc (Suc 0)) swappedBoard = Inr (True, movedBoard)"
  by (simp add: run_defs swappedBoard_def movedBoard_def upt_rec)

lemma rect_swappedBoard: "rect swappedBoard"
  by (simp add: rect_def swappedBoard_def)

lemma cascade_swapped_short: "cascade (Suc 0) swappedBoard = Inr (False, movedBoard)"
  by (simp add: run_defs swappedBoard_def movedBoard_def upt_rec)

lemma move_init:
  "move (Suc d) initBoard \<lparr>row = 0, col = 0\<rparr> \<lparr>row = 0, col = 1\<rparr> = Some (Inr movedBoard)"
proof -
  from cascade_more [OF cascade_swapped, of d]
  have "cascade (Suc (Suc d)) swappedBoard = Inr (True, movedBoard)" by simp
  from cascade_resolve [OF rect_swappedBoard _ this]
  have "resolve (Suc d) swappedBoard = Some (Inr movedBoard)" by (simp add: swappedBoard_def)
  then show ?thesis by (simp add: move_def canMove_init change_init)
qed

lemma reachable_initBoard: "reachable initBoard"
  by (rule reachable.constructed [OF construct_initBoard])

lemma reachable_movedBoard: "reachable movedBoard"
  by (rule reachable.moved [OF reachable_initBoard move_init])

section \<open>Quiescence\<close>

lemma hasMatch_cong:
  assumes "board s' = board s" "width s' = width s" "height s' = height s"
  shows "hasMatch s' = hasMatch s"
proof -
  have l: "look s' = look s" using assms by (intro ext) (simp add: look_def inGrid_def)
  have "hrun s' = hrun s" "vrun s' = vrun s" by (simp_all add: hrun_def vrun_def l)
  then show ?thesis using assms by (simp add: hasMatch_def firstH_def firstV_def)
qed

lemma reachable_inv: "reachable s \<Longrightarrow> rect s \<and> matches s = [] \<and> \<not> hasMatch s"
proof (induction rule: reachable.induct)
  case (constructed depth gen w h s)
  then have "resolve depth (filled gen w h) = Some (Inr s)" by (simp add: construct_def)
  from resolve_cascade [OF filled_fields(1,2) this]
  obtain n where "cascade n (filled gen w h) = Inr (True, s)" by blast
  moreover have "\<exists>fin s'. cascade n (filled gen w h) = Inr (fin, s') \<and> rect s' \<and> matches s' = [] \<and>
      width s' = width (filled gen w h) \<and> height s' = height (filled gen w h) \<and>
      listeners s' = listeners (filled gen w h) \<and> generator s' = generator (filled gen w h) \<and>
      (listeners (filled gen w h) = [] \<longrightarrow> delivered s' = delivered (filled gen w h)) \<and>
      (fin \<longrightarrow> \<not> hasMatch s')"
    by (rule cascade_inv [OF filled_fields(1,2)])
  ultimately show ?case by auto
next
  case (listened s l)
  have "hasMatch (addListener l s) = hasMatch s"
    by (rule hasMatch_cong) (simp_all add: addListener_def)
  with listened.IH show ?case by (simp add: addListener_def rect_def)
next
  case (asked s a b ok s1)
  then show ?case by (simp add: canMove_rect)
next
  case (moved s depth a b s1)
  then have r: "rect s" and m: "matches s = []" and q: "\<not> hasMatch s" by simp_all
  show ?case
  proof (cases "legal s a b")
    case False
    with moved.hyps(2) r have "s1 = s" by (simp add: move_def canMove_rect)
    with r m q show ?thesis by simp
  next
    case True
    then obtain x y where "look s a = Some x" "look s b = Some y"
      by (auto simp: legal_def split: option.splits)
    then have i: "inGrid s a" "inGrid s b" by (auto dest: look_Some_inGrid)
    from moved.hyps(2) True r have res: "resolve depth (swapped s a b) = Some (Inr s1)"
      by (simp add: move_def canMove_rect change_swapped [OF r i])
    have r1: "rect (swapped s a b)" "matches (swapped s a b) = []"
      using r m by (simp_all add: rect_swapped)
    from resolve_cascade [OF r1 res]
    obtain n where "cascade n (swapped s a b) = Inr (True, s1)" by blast
    with cascade_inv [OF r1, of n] show ?thesis by auto
  qed
qed

text \<open>
  C1. On every board a caller can hold (the constructor has returned, then any number
  of \<open>addListener\<close>, \<open>canMove\<close> and \<open>move\<close> calls that returned), no window of three
  consecutive cells of the grid, in a row or in a column, holds three equal values.
\<close>

theorem quiescence:
  assumes "reachable s" and "0 \<le> r" "r < height s" "0 \<le> c" "c < width s"
  shows "(c + 2 < width s \<longrightarrow>
            \<not> (piece s \<lparr>row = r, col = c\<rparr> = piece s \<lparr>row = r, col = c + 1\<rparr> \<and>
               piece s \<lparr>row = r, col = c + 1\<rparr> = piece s \<lparr>row = r, col = c + 2\<rparr>)) \<and>
         (r + 2 < height s \<longrightarrow>
            \<not> (piece s \<lparr>row = r, col = c\<rparr> = piece s \<lparr>row = r + 1, col = c\<rparr> \<and>
               piece s \<lparr>row = r + 1, col = c\<rparr> = piece s \<lparr>row = r + 2, col = c\<rparr>))"
proof -
  from reachable_inv [OF assms(1)] have r: "rect s" and q: "\<not> hasMatch s" by simp_all
  from q have h: "firstH s = None" and v: "firstV s = None" unfolding hasMatch_def by blast+
  have "\<not> hrun s (r, c)" if "c + 2 < width s"
    using h that assms(2-5) by (simp add: firstH_None)
  moreover have "\<not> vrun s (r, c)" if "r + 2 < height s"
    using v that assms(2-5) by (simp add: firstV_None)
  ultimately show ?thesis by (simp add: piece_look [OF r] hrun_def vrun_def)
qed

theorem quiescence_witness:
  "reachable movedBoard \<and> (0::int) \<le> 0 \<and> 0 < height movedBoard \<and> (0::int) \<le> 1 \<and>
   1 < width movedBoard \<and> 1 + 2 < width movedBoard \<and> 0 + 2 < height movedBoard \<and>
   \<not> (piece movedBoard \<lparr>row = 0, col = 1\<rparr> = piece movedBoard \<lparr>row = 0, col = 1 + 1\<rparr> \<and>
      piece movedBoard \<lparr>row = 0, col = 1 + 1\<rparr> = piece movedBoard \<lparr>row = 0, col = 1 + 2\<rparr>) \<and>
   \<not> (piece movedBoard \<lparr>row = 0, col = 1\<rparr> = piece movedBoard \<lparr>row = 0 + 1, col = 1\<rparr> \<and>
      piece movedBoard \<lparr>row = 0 + 1, col = 1\<rparr> = piece movedBoard \<lparr>row = 0 + 2, col = 1\<rparr>)"
proof -
  have d: "(0::int) \<le> 0" "0 < height movedBoard" "(0::int) \<le> 1" "1 < width movedBoard"
    "1 + 2 < width movedBoard" "0 + 2 < height movedBoard"
    by (simp_all add: movedBoard_def)
  from quiescence [OF reachable_movedBoard d(1-4)] d(5,6) reachable_movedBoard d(1-4)
  show ?thesis by blast
qed

section \<open>Scanning\<close>

text \<open>
  C4. One call of \<open>findMatches\<close> on a rectangular board records at most one match made of
  cells of one row, the first in scan order, and then at most one match made of cells
  of one column, the first in scan order, and emits exactly these as \<open>Match\<close> events:
  at most two matches and two events, whatever the number of runs on the board.
\<close>

theorem scan_records_first_only:
  assumes "rect s"
  shows "\<exists>s'. findMatches s = Inr (firstH s \<noteq> None \<or> firstV s \<noteq> None, s') \<and>
           board s' = board s \<and>
           matches s' = matches s @ (case firstH s of None \<Rightarrow> [] | Some p \<Rightarrow> [hmatch s p])
                                  @ (case firstV s of None \<Rightarrow> [] | Some p \<Rightarrow> [vmatch s p]) \<and>
           events s' = events s @ map MatchEvent
                         ((case firstH s of None \<Rightarrow> [] | Some p \<Rightarrow> [hmatch s p])
                          @ (case firstV s of None \<Rightarrow> [] | Some p \<Rightarrow> [vmatch s p])) \<and>
           length (matches s') \<le> length (matches s) + 2 \<and>
           length (events s') \<le> length (events s) + 2"
proof -
  have "findMatches s = Inr (firstH s \<noteq> None \<or> firstV s \<noteq> None, scanned s)"
    using findMatches_rect [OF assms] by (simp add: hasMatch_def)
  moreover have "length (newMatches s) \<le> 2"
    by (simp add: newMatches_def split: option.splits)
  ultimately show ?thesis
    by (simp add: scanned_fields) (simp add: newMatches_def)
qed

lemma rect_fullBoard: "rect fullBoard"
  by (simp add: rect_def fullBoard_def)

theorem scan_records_first_only_witness:
  "rect fullBoard \<and>
   (\<exists>s'. findMatches fullBoard = Inr (True, s') \<and>
      matches s' =
        [\<lparr>matched = Some ''A'',
          positions = [\<lparr>row = 0, col = 0\<rparr>, \<lparr>row = 0, col = 1\<rparr>, \<lparr>row = 0, col = 2\<rparr>]\<rparr>,
         \<lparr>matched = Some ''A'',
          positions = [\<lparr>row = 0, col = 0\<rparr>, \<lparr>row = 1, col = 0\<rparr>, \<lparr>row = 2, col = 0\<rparr>]\<rparr>] \<and>
      length (events s') = 2)"
proof -
  have h: "firstH fullBoard = Some (0, 0)" and v: "firstV fullBoard = Some (0, 0)"
    by (simp_all add: scan_defs fullBoard_def upt_rec)
  have m: "matches fullBoard = []" "events fullBoard = []" by (simp_all add: fullBoard_def)
  have hm: "hmatch fullBoard (0, 0) = \<lparr>matched = Some ''A'',
          positions = [\<lparr>row = 0, col = 0\<rparr>, \<lparr>row = 0, col = 1\<rparr>, \<lparr>row = 0, col = 2\<rparr>]\<rparr>"
    and vm: "vmatch fullBoard (0, 0) = \<lparr>matched = Some ''A'',
          positions = [\<lparr>row = 0, col = 0\<rparr>, \<lparr>row = 1, col = 0\<rparr>, \<lparr>row = 2, col = 0\<rparr>]\<rparr>"
    by (simp_all add: scan_defs fullBoard_def)
  from scan_records_first_only [OF rect_fullBoard] show ?thesis
    using rect_fullBoard by (auto simp: h v m hm vm)
qed

lemma stuck_pass:
  assumes "stuck s"
  shows "\<exists>s1 s2. findMatches s = Inr (True, s1) \<and> settle s1 = Inr s2 \<and> stuck s2"
  using assms unfolding stuck_def
  by (simp add: run_defs upt_rec)

lemma stuck_cascade: "stuck s \<Longrightarrow> \<exists>s'. cascade n s = Inr (False, s')"
proof (induction n arbitrary: s)
  case 0
  then show ?case by simp
next
  case (Suc n)
  from stuck_pass [OF Suc.prems] obtain s1 s2 where
    p: "findMatches s = Inr (True, s1)" "settle s1 = Inr s2" "stuck s2" by blast
  from Suc.IH [OF p(3)] show ?case by (simp add: p(1,2))
qed

lemma stuck_filled: "stuck (filled (SequenceGenerator ''A'') 3 1)"
  by (simp add: stuck_def filled_def fill_numeral nextPiece_def SequenceGenerator_def)

lemma cells_empty: "w \<le> 0 \<Longrightarrow> cells h w = []" "h \<le> 0 \<Longrightarrow> cells h w = []"
  by (simp_all add: cells_def upTo_def)

lemma small_quiet: "width s < 3 \<Longrightarrow> height s < 3 \<Longrightarrow> \<not> hasMatch s"
  by (simp add: hasMatch_def firstH_def firstV_def cells_empty)

lemma stuck_overflow: "stuck s \<Longrightarrow> resolve d s = Some (Inl RangeError)"
proof -
  assume st: "stuck s"
  then have r: "rect s" "matches s = []" by (simp_all add: stuck_def rect_def)
  from stuck_cascade [OF st, of "Suc d"] resolve_overflow [OF r, of d] show ?thesis by blast
qed

lemma resolve_ends:
  assumes "rect s" "matches s = []"
  shows "resolve d s \<noteq> None" "resolve d s \<noteq> Some (Inl TypeError)"
proof -
  from cascade_inv [OF assms, of "Suc d"] obtain fin t where
    f: "cascade (Suc d) s = Inr (fin, t)" by auto
  from resolve_outcome [OF assms, of d] have r: "resolve d s = Some (outcome (Inr (fin, t)))"
    unfolding f .
  from r show "resolve d s \<noteq> None" by simp
  from r show "resolve d s \<noteq> Some (Inl TypeError)" by (cases fin) (simp_all add: outcome_def)
qed

text \<open>
  C2, as the code has it. The loop nests one call of \<open>doMatch\<close> for every pass, so the
  constructor and \<open>move\<close> always end, but not always at a matchless board: with room for
  \<open>depth\<close> nested calls, the call returns the board of the first scan that finds no
  match when that scan is among the first \<open>depth + 1\<close>, and raises a RangeError when
  each of these scans finds a match (\<open>cascade (Suc depth)\<close> tells which). It never raises
  another error. An illegal \<open>move\<close> returns at once, and with fewer than three rows and
  fewer than three columns the first scan finds nothing.
\<close>

theorem cascade_within_stack:
  "construct depth gen w h \<noteq> None \<and> construct depth gen w h \<noteq> Some (Inl TypeError) \<and>
   (construct depth gen w h = Some (Inr s') \<longleftrightarrow>
      cascade (Suc depth) (filled gen w h) = Inr (True, s')) \<and>
   (construct depth gen w h = Some (Inl RangeError) \<longleftrightarrow>
      (\<exists>t. cascade (Suc depth) (filled gen w h) = Inr (False, t))) \<and>
   (reachable s \<and> canMove s a b = Inr (True, s) \<and> change s a b = Inr s1 \<longrightarrow>
      move depth s a b \<noteq> None \<and> move depth s a b \<noteq> Some (Inl TypeError) \<and>
      (move depth s a b = Some (Inr s') \<longleftrightarrow> cascade (Suc depth) s1 = Inr (True, s')) \<and>
      (move depth s a b = Some (Inl RangeError) \<longleftrightarrow>
         (\<exists>t. cascade (Suc depth) s1 = Inr (False, t)))) \<and>
   (reachable s \<and> canMove s a b = Inr (False, s) \<longrightarrow> move depth s a b = Some (Inr s)) \<and>
   (w < 3 \<and> h < 3 \<longrightarrow> construct depth gen w h = Some (Inr (filled gen w h)))"
proof -
  note f = filled_fields(1,2) [of gen w h]
  have c1: "construct depth gen w h \<noteq> None" "construct depth gen w h \<noteq> Some (Inl TypeError)"
    using resolve_ends [OF f, of depth] by (simp_all add: construct_def)
  have c2: "construct depth gen w h = Some (Inr s') \<longleftrightarrow>
      cascade (Suc depth) (filled gen w h) = Inr (True, s')"
    unfolding construct_def using resolve_cascade [OF f] cascade_resolve [OF f] by blast
  have c3: "construct depth gen w h = Some (Inl RangeError) \<longleftrightarrow>
      (\<exists>t. cascade (Suc depth) (filled gen w h) = Inr (False, t))"
    unfolding construct_def by (rule resolve_overflow [OF f])
  have c4: "move depth s a b \<noteq> None \<and> move depth s a b \<noteq> Some (Inl TypeError) \<and>
      (move depth s a b = Some (Inr s') \<longleftrightarrow> cascade (Suc depth) s1 = Inr (True, s')) \<and>
      (move depth s a b = Some (Inl RangeError) \<longleftrightarrow>
         (\<exists>t. cascade (Suc depth) s1 = Inr (False, t)))"
    if a: "reachable s \<and> canMove s a b = Inr (True, s) \<and> change s a b = Inr s1"
  proof -
    from a reachable_inv [of s] have r: "rect s" and m: "matches s = []" by simp_all
    from a r have l: "legal s a b" by (simp add: canMove_rect)
    then obtain x z where "look s a = Some x" "look s b = Some z"
      by (auto simp: legal_def split: option.splits)
    then have i: "inGrid s a" "inGrid s b" by (auto dest: look_Some_inGrid)
    from a have s1: "s1 = swapped s a b" by (simp add: change_swapped [OF r i])
    have r1: "rect s1" "matches s1 = []" using r m by (simp_all add: s1 rect_swapped)
    have mv: "move depth s a b = resolve depth s1" using a by (simp add: move_def)
    show ?thesis
      unfolding mv
      using resolve_ends [OF r1, of depth] resolve_cascade [OF r1] cascade_resolve [OF r1]
        resolve_overflow [OF r1, of depth]
      by blast
  qed
  have c5: "move depth s a b = Some (Inr s)" if "reachable s \<and> canMove s a b = Inr (False, s)"
    using that by (simp add: move_def)
  have c6: "construct depth gen w h = Some (Inr (filled gen w h))" if "w < 3 \<and> h < 3"
  proof -
    from that have "\<not> hasMatch (filled gen w h)"
      by (intro small_quiet) (simp_all add: filled_fields)
    with resolve_quiet [OF filled_fields(1)] show ?thesis by (simp add: construct_def)
  qed
  from c1 c2 c3 c4 c5 c6 show ?thesis by blast
qed

lemma canMove_init_illegal:
  "canMove initBoard \<lparr>row = 0, col = 0\<rparr> \<lparr>row = 1, col = 3\<rparr> = Inr (False, initBoard)"
  by (simp add: canMove_def piece_def readCell_def rowAt_def initBoard_def)

theorem cascade_within_stack_witness:
  "construct (Suc 0) (SequenceGenerator ''AAAB'') 3 1 = Some (Inr rowBoard) \<and>
   construct 0 (SequenceGenerator ''AAAB'') 3 1 = Some (Inl RangeError) \<and>
   reachable initBoard \<and>
   canMove initBoard \<lparr>row = 0, col = 0\<rparr> \<lparr>row = 0, col = 1\<rparr> = Inr (True, initBoard) \<and>
   change initBoard \<lparr>row = 0, col = 0\<rparr> \<lparr>row = 0, col = 1\<rparr> = Inr swappedBoard \<and>
   move (Suc 0) initBoard \<lparr>row = 0, col = 0\<rparr> \<lparr>row = 0, col = 1\<rparr> = Some (Inr movedBoard) \<and>
   move 0 initBoard \<lparr>row = 0, col = 0\<rparr> \<lparr>row = 0, col = 1\<rparr> = Some (Inl RangeError) \<and>
   canMove initBoard \<lparr>row = 0, col = 0\<rparr> \<lparr>row = 1, col = 3\<rparr> = Inr (False, initBoard) \<and>
   move 0 initBoard \<lparr>row = 0, col = 0\<rparr> \<lparr>row = 1, col = 3\<rparr> = Some (Inr initBoard) \<and>
   (2::int) < 3 \<and>
   construct 0 (SequenceGenerator ''A'') 2 2 = Some (Inr (filled (SequenceGenerator ''A'') 2 2))"
proof -
  note t1 = cascade_within_stack [of "Suc 0" "SequenceGenerator ''AAAB''" 3 1 rowBoard]
  have c1: "construct (Suc 0) (SequenceGenerator ''AAAB'') 3 1 = Some (Inr rowBoard)"
    using t1 cascade_row by blast
  note t1' = cascade_within_stack [of 0 "SequenceGenerator ''AAAB''" 3 1]
  have c1': "construct 0 (SequenceGenerator ''AAAB'') 3 1 = Some (Inl RangeError)"
    using t1' cascade_row_short by blast
  note t2 = cascade_within_stack [of "Suc 0" _ _ _ movedBoard initBoard
      "\<lparr>row = 0, col = 0\<rparr>" "\<lparr>row = 0, col = 1\<rparr>" swappedBoard]
  have c2: "move (Suc 0) initBoard \<lparr>row = 0, col = 0\<rparr> \<lparr>row = 0, col = 1\<rparr> = Some (Inr movedBoard)"
    using t2 reachable_initBoard canMove_init change_init cascade_swapped by blast
  note t2' = cascade_within_stack [of 0 _ _ _ _ initBoard
      "\<lparr>row = 0, col = 0\<rparr>" "\<lparr>row = 0, col = 1\<rparr>" swappedBoard]
  have c2': "move 0 initBoard \<lparr>row = 0, col = 0\<rparr> \<lparr>row = 0, col = 1\<rparr> = Some (Inl RangeError)"
    using t2' reachable_initBoard canMove_init change_init cascade_swapped_short by blast
  note t3 = cascade_within_stack [of 0 _ _ _ _ initBoard "\<lparr>row = 0, col = 0\<rparr>" "\<lparr>row = 1, col = 3\<rparr>"]
  have c3: "move 0 initBoard \<lparr>row = 0, col = 0\<rparr> \<lparr>row = 1, col = 3\<rparr> = Some (Inr initBoard)"
    using t3 reachable_initBoard canMove_init_illegal by blast
  note t4 = cascade_within_stack [of 0 "SequenceGenerator ''A''" 2 2]
  have c4: "construct 0 (SequenceGenerator ''A'') 2 2 = Some (Inr (filled (SequenceGenerator ''A'') 2 2))"
    using t4 by simp
  show ?thesis
    using c1 c1' c2 c2' c3 c4 reachable_initBoard canMove_init change_init canMove_init_illegal
    by simp
qed

text \<open>
  C2, as the claim states it, fails: with a generator that always returns \<open>A\<close> and a
  board of one row of three cells, every pass clears the row and refills it with the
  same run, no scan ever finds the board without a match, and the constructor ends in
  a RangeError, here with room for no, for 4040 and for a million nested calls (and
  for any other number, by \<open>stuck_overflow\<close>).
\<close>

theorem constant_generator_overflows:
  "construct 0 (SequenceGenerator ''A'') 3 1 = Some (Inl RangeError) \<and>
   construct 4040 (SequenceGenerator ''A'') 3 1 = Some (Inl RangeError) \<and>
   construct 1000000 (SequenceGenerator ''A'') 3 1 = Some (Inl RangeError) \<and>
   map_sum id fst (cascade 1000000 (filled (SequenceGenerator ''A'') 3 1)) = Inr False"
proof -
  from stuck_cascade [OF stuck_filled, of 1000000]
  have "map_sum id fst (cascade 1000000 (filled (SequenceGenerator ''A'') 3 1)) = Inr False"
    by auto
  then show ?thesis by (simp add: construct_def stuck_overflow [OF stuck_filled])
qed

section \<open>Refill\<close>

lemma all_some_fallen: "list_all (\<lambda>v. v \<noteq> None) (fallen gen d xs)"
  by (auto simp: fallen_def fresh_def survivors_def list_all_iff)

text \<open>
  C8. The column loop of \<open>refillBoard\<close> returns normally on a rectangular board, emits
  no event and changes each column by itself: the pieces the column held stay in their
  order and end at its bottom, and the cells above them are filled from the generator,
  the lowest of them first, column 0 before column 1 and so on; no cell is left empty.
  \<open>drawnBefore s c\<close> counts the draws made before column \<open>c\<close>: those before the call and
  one for each empty cell of the columns to its left.
\<close>

theorem refill_gravity:
  assumes "rect s"
  shows "\<exists>s'. refillColumns s = Inr s' \<and> rect s' \<and> frame s s' \<and>
           drawn s' = drawnBefore s (width s) \<and>
           (\<forall>c. 0 \<le> c \<and> c < width s \<longrightarrow>
              column (board s') c =
                rev (fresh (generator s) (drawnBefore s c) (empties (column (board s) c)))
                @ survivors (column (board s) c) \<and>
              list_all (\<lambda>v. v \<noteq> None) (column (board s') c))"
proof -
  from refillColumns_rect [OF assms] obtain s' where s': "refillColumns s = Inr s'" "rect s'"
    "frame s s'" "drawn s' = drawnBefore s (width s)"
    "\<forall>c. 0 \<le> c \<and> c < width s \<longrightarrow>
       column (board s') c = fallen (generator s) (drawnBefore s c) (column (board s) c)"
    by blast
  have "\<forall>c. 0 \<le> c \<and> c < width s \<longrightarrow>
              column (board s') c =
                rev (fresh (generator s) (drawnBefore s c) (empties (column (board s) c)))
                @ survivors (column (board s) c) \<and>
              list_all (\<lambda>v. v \<noteq> None) (column (board s') c)"
  proof (intro allI impI)
    fix c assume "0 \<le> c \<and> c < width s"
    with s'(5) have e: "column (board s') c = fallen (generator s) (drawnBefore s c) (column (board s) c)"
      by blast
    show "column (board s') c =
                rev (fresh (generator s) (drawnBefore s c) (empties (column (board s) c)))
                @ survivors (column (board s) c) \<and>
              list_all (\<lambda>v. v \<noteq> None) (column (board s') c)"
      unfolding e using all_some_fallen [of "generator s" "drawnBefore s c" "column (board s) c"]
      by (simp add: fallen_def)
  qed
  with s'(1-4) show ?thesis by blast
qed

lemma rect_holeBoard: "rect holeBoard"
  by (simp add: rect_def holeBoard_def)

theorem refill_gravity_witness:
  "rect holeBoard \<and>
   column (board holeBoard) 0 = [None, Some ''B'', None] \<and>
   column (board holeBoard) 1 = [Some ''A'', None, Some ''C''] \<and>
   (\<exists>s'. refillColumns holeBoard = Inr s' \<and> drawn s' = 3 \<and>
      column (board s') 0 = [Some ''Y'', Some ''X'', Some ''B''] \<and>
      column (board s') 1 = [Some ''X'', Some ''A'', Some ''C''])"
proof -
  have c: "column (board holeBoard) 0 = [None, Some ''B'', None]"
    "column (board holeBoard) 1 = [Some ''A'', None, Some ''C'']"
    by (simp_all add: column_def holeBoard_def)
  have w: "width holeBoard = 2" "generator holeBoard = SequenceGenerator ''XY''"
    by (simp_all add: holeBoard_def)
  have d: "drawnBefore holeBoard 0 = 0" "drawnBefore holeBoard 1 = 2" "drawnBefore holeBoard 2 = 3"
    by (simp_all add: drawnBefore_def upTo_def column_def holeBoard_def upt_rec)
  from refill_gravity [OF rect_holeBoard] obtain s' where
    s': "refillColumns holeBoard = Inr s'" "drawn s' = drawnBefore holeBoard (width holeBoard)"
    "\<forall>c. 0 \<le> c \<and> c < width holeBoard \<longrightarrow>
       column (board s') c =
         rev (fresh (generator holeBoard) (drawnBefore holeBoard c)
                (empties (column (board holeBoard) c)))
         @ survivors (column (board holeBoard) c) \<and>
       list_all (\<lambda>v. v \<noteq> None) (column (board s') c)"
    by blast
  have g: "SequenceGenerator ''XY'' 0 = ''X''" "SequenceGenerator ''XY'' (Suc 0) = ''Y''"
    "SequenceGenerator ''XY'' 2 = ''X''"
    by code_simp+
  have f: "fresh (SequenceGenerator ''XY'') 0 (Suc (Suc 0)) = [Some ''X'', Some ''Y'']"
    "fresh (SequenceGenerator ''XY'') 2 (Suc 0) = [Some ''X'']"
    by (simp_all add: fresh_def g)
  from s'(3) [rule_format, of 0] have "column (board s') 0 = [Some ''Y'', Some ''X'', Some ''B'']"
    by (simp add: w c d f)
  moreover from s'(3) [rule_format, of 1] have "column (board s') 1 = [Some ''X'', Some ''A'', Some ''C'']"
    by (simp add: w c d f)
  moreover have "drawn s' = 3" using s'(2) by (simp add: w d)
  ultimately show ?thesis using rect_holeBoard c s'(1) by blast
qed

section \<open>Listeners during construction\<close>

text \<open>
  C10. The constructor starts with no listener and registers none, so no listener is
  ever invoked while it runs: after any number of passes of its loop, and when it
  returns, the list of listeners and the record of listener invocations are empty,
  whatever events were emitted and whatever room the stack has.
\<close>

theorem construction_silent:
  "(construct depth gen w h = Some (Inr s) \<longrightarrow> listeners s = [] \<and> delivered s = []) \<and>
   (cascade n (filled gen w h) = Inr (fin, s') \<longrightarrow> listeners s' = [] \<and> delivered s' = [])"
proof -
  have c: "listeners t = [] \<and> delivered t = []" if "cascade k (filled gen w h) = Inr (f, t)" for k f t
  proof -
    have "\<exists>fin s'. cascade k (filled gen w h) = Inr (fin, s') \<and> rect s' \<and> matches s' = [] \<and>
      width s' = width (filled gen w h) \<and> height s' = height (filled gen w h) \<and>
      listeners s' = listeners (filled gen w h) \<and> generator s' = generator (filled gen w h) \<and>
      (listeners (filled gen w h) = [] \<longrightarrow> delivered s' = delivered (filled gen w h)) \<and>
      (fin \<longrightarrow> \<not> hasMatch s')"
      by (rule cascade_inv [OF filled_fields(1,2)])
    with that show ?thesis by (auto simp: filled_fields)
  qed
  show ?thesis
  proof (rule conjI; rule impI)
    assume "construct depth gen w h = Some (Inr s)"
    then have "resolve depth (filled gen w h) = Some (Inr s)" by (simp add: construct_def)
    from resolve_cascade [OF filled_fields(1,2) this]
    obtain k where "cascade k (filled gen w h) = Inr (True, s)" by blast
    from c [OF this] show "listeners s = [] \<and> delivered s = []" .
  next
    assume "cascade n (filled gen w h) = Inr (fin, s')"
    from c [OF this] show "listeners s' = [] \<and> delivered s' = []" .
  qed
qed

theorem construction_silent_witness:
  "construct (Suc 0) (SequenceGenerator ''AAAB'') 3 1 = Some (Inr rowBoard) \<and>
   cascade (Suc (Suc 0)) (filled (SequenceGenerator ''AAAB'') 3 1) = Inr (True, rowBoard) \<and>
   length (events rowBoard) = 2 \<and> listeners rowBoard = [] \<and> delivered rowBoard = []"
proof -
  from construction_silent [of "Suc 0" "SequenceGenerator ''AAAB''" 3 1 rowBoard "Suc (Suc 0)" True rowBoard]
    construct_rowBoard cascade_row
  have "listeners rowBoard = [] \<and> delivered rowBoard = []" by blast
  moreover have "length (events rowBoard) = 2" by (simp add: rowBoard_def)
  ultimately show ?thesis using construct_rowBoard cascade_row by blast
qed

end
